theory Spec2Isabelle
  imports Complex_Main "HOL-Library.Word" "HOL-Library.Signed_Division"
begin

unbundle bit_operations_syntax

section \<open>Sound hardware of Genesis Plus GX (core/sound/sound.c)\<close>

text \<open>
  The module keeps its state in file-level statics and reaches the FM chips, the PSG
  and the resampler through functions of other modules. The statics become one record
  that every operation takes and returns; the functions of the other modules become
  the fields of a record of parameters; a crash of the C program (a call through a
  null function pointer, a division by zero, an access outside an array) becomes a
  \<open>fault\<close> value.
\<close>

subsection \<open>Machine integers\<close>

type_synonym uint8 = "8 word"
type_synonym uint32 = "32 word"

text \<open>A C \<open>int\<close>: 32 bits, read by \<open>sint\<close>.\<close>
type_synonym cint = "32 word"

text \<open>Division of two C \<open>int\<close>s truncates towards zero.\<close>
definition cdiv :: "cint \<Rightarrow> cint \<Rightarrow> cint" where
  "cdiv a b = word_of_int (sint a sdiv sint b)"

subsection \<open>Configuration and the other modules\<close>

datatype fault =
    Null_call
  | Null_pointer
  | Division_by_zero
  | Buffer_overflow
  | Buffer_overrun
  | State_overrun

datatype psg_type = PSG_DISCRETE | PSG_INTEGRATED

text \<open>
  What the module reads and never writes: \<open>system_hw\<close>, the fields of \<open>config\<close> it
  uses, the build option \<open>HAVE_YM3438_CORE\<close>, and the three hardware constants of
  the headers, which are taken as parameters.
\<close>

record env =
  HAVE_YM3438_CORE :: bool
  SYSTEM_SG :: uint8
  SYSTEM_MD :: uint8
  SYSTEM_PBC :: uint8
  system_hw :: uint8
  config_ym3438 :: uint8
  config_dac_bits :: uint8
  config_fm_preamp :: cint
  config_psg_preamp :: cint
  config_hq_fm :: uint8

text \<open>
  The calls this module makes on \<open>snd.blips[0]\<close>, in the order they are made.
\<close>

datatype blip_call =
    Blip_add_delta uint32 cint cint
  | Blip_add_delta_fast uint32 cint cint
  | Blip_end_frame uint32

text \<open>
  The functions of the other modules. \<open>'o\<close> is the type \<open>ym3438_t\<close>, \<open>'m\<close>, \<open>'p\<close> and
  \<open>'g\<close> are the private states of the YM2612, YM2413 and PSG modules.

  Modelled from the spec: the bulk generate entry points \<open>YM2612Update\<close> and
  \<open>YM2413Update\<close> are not in the source file; \<open>generate(sampleCount)\<close> writes
  \<open>sampleCount\<close> stereo pairs into the buffer region it is given, so a call returns
  the function that gives the pair with index \<open>i\<close> and the new chip state.
  A context is saved as the bytes it writes and loaded from the bytes that follow the
  pointer it is given, returning the number of bytes read.
\<close>

record ('o, 'm, 'p, 'g) externs =
  OPN2_Reset :: "'o \<Rightarrow> 'o"
  OPN2_Clock :: "'o \<Rightarrow> (cint \<times> cint) \<times> 'o"
  OPN2_Write :: "uint32 \<Rightarrow> uint32 \<Rightarrow> 'o \<Rightarrow> 'o"
  OPN2_Read :: "uint32 \<Rightarrow> 'o \<Rightarrow> uint32 \<times> 'o"
  ym3438_zero :: "'o"
  ym3438_size :: nat
  ym3438_bytes :: "'o \<Rightarrow> uint8 list"
  ym3438_of_bytes :: "uint8 list \<Rightarrow> 'o"
  YM2612Init :: "'m \<Rightarrow> 'm"
  YM2612Config :: "uint8 \<Rightarrow> 'm \<Rightarrow> 'm"
  YM2612ResetChip :: "'m \<Rightarrow> 'm"
  YM2612Update :: "int \<Rightarrow> 'm \<Rightarrow> (nat \<Rightarrow> cint \<times> cint) \<times> 'm"
  YM2612Write :: "uint32 \<Rightarrow> uint32 \<Rightarrow> 'm \<Rightarrow> 'm"
  YM2612Read :: "uint32 \<Rightarrow> 'm \<Rightarrow> uint32 \<times> 'm"
  YM2612SaveContext :: "'m \<Rightarrow> uint8 list"
  YM2612LoadContext :: "uint8 list \<Rightarrow> 'm \<Rightarrow> nat \<times> 'm"
  YM2413Init :: "'p \<Rightarrow> 'p"
  YM2413ResetChip :: "'p \<Rightarrow> 'p"
  YM2413Update :: "int \<Rightarrow> 'p \<Rightarrow> (nat \<Rightarrow> cint \<times> cint) \<times> 'p"
  YM2413Write :: "uint32 \<Rightarrow> uint32 \<Rightarrow> 'p \<Rightarrow> 'p"
  YM2413GetContextSize :: nat
  YM2413GetContext :: "'p \<Rightarrow> uint8 list"
  YM2413SetContext :: "uint8 list \<Rightarrow> 'p \<Rightarrow> 'p"
  psg_init :: "psg_type \<Rightarrow> 'g \<Rightarrow> 'g"
  psg_reset :: "'g \<Rightarrow> 'g"
  psg_config :: "cint \<Rightarrow> cint \<Rightarrow> cint \<Rightarrow> 'g \<Rightarrow> 'g"
  psg_end_frame :: "uint32 \<Rightarrow> 'g \<Rightarrow> 'g"
  psg_context_save :: "'g \<Rightarrow> uint8 list"
  psg_context_load :: "uint8 list \<Rightarrow> 'g \<Rightarrow> nat \<times> 'g"
  blip_samples_avail :: "blip_call list \<Rightarrow> cint"

subsection \<open>The statics of the module\<close>

text \<open>The functions a \<open>YM_*\<close> pointer can hold; \<open>None\<close> is the null pointer.\<close>

datatype reset_fn = Fn_YM3438_Reset | Fn_YM2612ResetChip | Fn_YM2413ResetChip
datatype update_fn = Fn_YM3438_Update | Fn_YM2612Update | Fn_YM2413Update
datatype write_fn = Fn_YM3438_Write | Fn_YM2612Write | Fn_YM2413Write
datatype read_fn = Fn_YM3438_Read | Fn_YM2612Read

text \<open>
  \<open>fm_ptr\<close> is the offset of the pointer from \<open>fm_buffer\<close>, counted in \<open>int\<close>s, or
  \<open>None\<close> for the null pointer the static starts with. \<open>blips\<close> is the list of calls
  made on \<open>snd.blips[0]\<close> so far.
\<close>

record ('o, 'm, 'p, 'g) sound =
  fm_buffer :: "cint list"
  fm_last :: "cint \<times> cint"
  fm_ptr :: "nat option"
  fm_cycles_ratio :: uint32
  fm_cycles_start :: uint32
  fm_cycles_count :: uint32
  YM_Reset :: "reset_fn option"
  YM_Update :: "update_fn option"
  YM_Write :: "write_fn option"
  YM_Read :: "read_fn option"
  ym3438 :: "'o"
  ym3438_accm :: "(cint \<times> cint) list"
  ym3438_sample :: "cint \<times> cint"
  ym3438_cycles :: uint32
  ym2612 :: "'m"
  ym2413 :: "'p"
  psg :: "'g"
  blips :: "blip_call list"

text \<open>The length of \<open>fm_buffer\<close>, which depends on the build option.\<close>

definition fm_buffer_len :: "bool \<Rightarrow> nat" where
  "fm_buffer_len have_core = (if have_core then 1080 * 2 * 24 else 1080 * 2)"

subsection \<open>The Nuked OPN2 wrappers\<close>

definition YM3438_Reset ::
  "('o, 'm, 'p, 'g) externs \<Rightarrow> ('o, 'm, 'p, 'g) sound \<Rightarrow> ('o, 'm, 'p, 'g) sound" where
  "YM3438_Reset E s = s\<lparr>ym3438 := OPN2_Reset E (ym3438 s)\<rparr>"

text \<open>
  One turn of the loop of \<open>YM3438_Update\<close>: the chip is clocked into the row
  \<open>ym3438_accm[ym3438_cycles]\<close>; every 24 clocks the rows are summed into
  \<open>ym3438_sample\<close>; the two values written to the buffer are returned.
\<close>

definition accm_sum :: "(cint \<times> cint) list \<Rightarrow> cint \<times> cint" where
  "accm_sum rows = fold (\<lambda>row acc. (fst acc + fst row, snd acc + snd row)) rows (0, 0)"

definition YM3438_Update_step ::
  "('o, 'm, 'p, 'g) externs \<Rightarrow> ('o, 'm, 'p, 'g) sound
     \<Rightarrow> fault + (cint list \<times> ('o, 'm, 'p, 'g) sound)" where
  "YM3438_Update_step E s =
     (if unat (ym3438_cycles s) < length (ym3438_accm s) then
        (let (row, chip) = OPN2_Clock E (ym3438 s);
             accm = (ym3438_accm s)[unat (ym3438_cycles s) := row];
             cyc = (ym3438_cycles s + 1) mod 24;
             smp = (if cyc = 0 then accm_sum accm else ym3438_sample s)
         in Inr ([fst smp * 11, snd smp * 11],
                 s\<lparr>ym3438 := chip, ym3438_accm := accm,
                   ym3438_sample := smp, ym3438_cycles := cyc\<rparr>))
      else Inl Buffer_overflow)"

fun YM3438_Update ::
  "('o, 'm, 'p, 'g) externs \<Rightarrow> nat \<Rightarrow> ('o, 'm, 'p, 'g) sound
     \<Rightarrow> fault + (cint list \<times> ('o, 'm, 'p, 'g) sound)" where
  "YM3438_Update E 0 s = Inr ([], s)"
| "YM3438_Update E (Suc n) s =
     (case YM3438_Update_step E s of
        Inl e \<Rightarrow> Inl e
      | Inr (out, s') \<Rightarrow>
          (case YM3438_Update E n s' of
             Inl e \<Rightarrow> Inl e
           | Inr (outs, s'') \<Rightarrow> Inr (out @ outs, s'')))"

definition YM3438_Write ::
  "('o, 'm, 'p, 'g) externs \<Rightarrow> uint32 \<Rightarrow> uint32 \<Rightarrow> ('o, 'm, 'p, 'g) sound
     \<Rightarrow> ('o, 'm, 'p, 'g) sound" where
  "YM3438_Write E a v s = s\<lparr>ym3438 := OPN2_Write E a v (ym3438 s)\<rparr>"

definition YM3438_Read ::
  "('o, 'm, 'p, 'g) externs \<Rightarrow> uint32 \<Rightarrow> ('o, 'm, 'p, 'g) sound
     \<Rightarrow> uint32 \<times> ('o, 'm, 'p, 'g) sound" where
  "YM3438_Read E a s =
     (let (v, chip) = OPN2_Read E a (ym3438 s) in (v, s\<lparr>ym3438 := chip\<rparr>))"

subsection \<open>Calls through the function pointers\<close>

text \<open>The \<open>2 * n\<close> values a generate call of \<open>n\<close> pairs writes, in buffer order.\<close>

definition interleave :: "(nat \<Rightarrow> cint \<times> cint) \<Rightarrow> nat \<Rightarrow> cint list" where
  "interleave f n = concat (map (\<lambda>i. [fst (f i), snd (f i)]) [0..<n])"

text \<open>
  \<open>YM_Update(buffer, length)\<close>: the \<open>unsigned int\<close> argument of the caller arrives as
  the \<open>int\<close> parameter \<open>length\<close>; a length that is not positive writes nothing. The
  result is the list of values written from \<open>buffer\<close> on, and the new state.
\<close>

definition call_YM_Update ::
  "('o, 'm, 'p, 'g) externs \<Rightarrow> int \<Rightarrow> ('o, 'm, 'p, 'g) sound
     \<Rightarrow> fault + (cint list \<times> ('o, 'm, 'p, 'g) sound)" where
  "call_YM_Update E len s =
     (case YM_Update s of
        None \<Rightarrow> Inl Null_call
      | Some Fn_YM3438_Update \<Rightarrow> YM3438_Update E (nat len) s
      | Some Fn_YM2612Update \<Rightarrow>
          (let (f, chip) = YM2612Update E len (ym2612 s)
           in Inr (interleave f (nat len), s\<lparr>ym2612 := chip\<rparr>))
      | Some Fn_YM2413Update \<Rightarrow>
          (let (f, chip) = YM2413Update E len (ym2413 s)
           in Inr (interleave f (nat len), s\<lparr>ym2413 := chip\<rparr>)))"

definition call_YM_Reset ::
  "('o, 'm, 'p, 'g) externs \<Rightarrow> ('o, 'm, 'p, 'g) sound
     \<Rightarrow> fault + ('o, 'm, 'p, 'g) sound" where
  "call_YM_Reset E s =
     (case YM_Reset s of
        None \<Rightarrow> Inl Null_call
      | Some Fn_YM3438_Reset \<Rightarrow> Inr (YM3438_Reset E s)
      | Some Fn_YM2612ResetChip \<Rightarrow> Inr (s\<lparr>ym2612 := YM2612ResetChip E (ym2612 s)\<rparr>)
      | Some Fn_YM2413ResetChip \<Rightarrow> Inr (s\<lparr>ym2413 := YM2413ResetChip E (ym2413 s)\<rparr>))"

definition call_YM_Write ::
  "('o, 'm, 'p, 'g) externs \<Rightarrow> uint32 \<Rightarrow> uint32 \<Rightarrow> ('o, 'm, 'p, 'g) sound
     \<Rightarrow> fault + ('o, 'm, 'p, 'g) sound" where
  "call_YM_Write E a v s =
     (case YM_Write s of
        None \<Rightarrow> Inl Null_call
      | Some Fn_YM3438_Write \<Rightarrow> Inr (YM3438_Write E a v s)
      | Some Fn_YM2612Write \<Rightarrow> Inr (s\<lparr>ym2612 := YM2612Write E a v (ym2612 s)\<rparr>)
      | Some Fn_YM2413Write \<Rightarrow> Inr (s\<lparr>ym2413 := YM2413Write E a v (ym2413 s)\<rparr>))"

definition call_YM_Read ::
  "('o, 'm, 'p, 'g) externs \<Rightarrow> uint32 \<Rightarrow> ('o, 'm, 'p, 'g) sound
     \<Rightarrow> fault + (uint32 \<times> ('o, 'm, 'p, 'g) sound)" where
  "call_YM_Read E a s =
     (case YM_Read s of
        None \<Rightarrow> Inl Null_call
      | Some Fn_YM3438_Read \<Rightarrow> Inr (YM3438_Read E a s)
      | Some Fn_YM2612Read \<Rightarrow>
          (let (v, chip) = YM2612Read E a (ym2612 s) in Inr (v, s\<lparr>ym2612 := chip\<rparr>)))"

subsection \<open>Running the FM chip until the required M-cycles\<close>

text \<open>
  Writing \<open>vals\<close> into the buffer from offset \<open>p\<close> on; the caller has checked that they
  fit.
\<close>

definition buffer_write :: "cint list \<Rightarrow> nat \<Rightarrow> cint list \<Rightarrow> cint list" where
  "buffer_write buf p vals = take p buf @ vals @ drop (p + length vals) buf"

text \<open>The local \<open>samples\<close> of \<open>fm_update\<close>, in \<open>unsigned int\<close> arithmetic.\<close>

definition fm_samples :: "uint32 \<Rightarrow> ('o, 'm, 'p, 'g) sound \<Rightarrow> uint32" where
  "fm_samples cycles s =
     (cycles - fm_cycles_count s + fm_cycles_ratio s - 1) div fm_cycles_ratio s"

text \<open>
  \<open>fm_update\<close>. The division traps when the ratio is 0. The values the chip writes
  and the new pointer have to stay inside \<open>fm_buffer\<close>; with the null pointer only a
  call that writes nothing and adds 0 goes through.
\<close>

definition fm_update ::
  "('o, 'm, 'p, 'g) externs \<Rightarrow> uint32 \<Rightarrow> ('o, 'm, 'p, 'g) sound
     \<Rightarrow> fault + ('o, 'm, 'p, 'g) sound" where
  "fm_update E cycles s =
     (if cycles > fm_cycles_count s then
        (if fm_cycles_ratio s = 0 then Inl Division_by_zero
         else
           (let samples = fm_samples cycles s in
            case call_YM_Update E (sint samples) s of
              Inl e \<Rightarrow> Inl e
            | Inr (vals, s') \<Rightarrow>
                (case fm_ptr s' of
                   None \<Rightarrow>
                     (if vals = [] \<and> push_bit 1 samples = 0 then
                        Inr (s'\<lparr>fm_cycles_count :=
                                 fm_cycles_count s' + samples * fm_cycles_ratio s'\<rparr>)
                      else Inl Null_pointer)
                 | Some p \<Rightarrow>
                     (if p + length vals \<le> length (fm_buffer s')
                         \<and> p + unat (push_bit 1 samples) \<le> length (fm_buffer s') then
                        Inr (s'\<lparr>fm_buffer := buffer_write (fm_buffer s') p vals,
                               fm_ptr := Some (p + unat (push_bit 1 samples)),
                               fm_cycles_count :=
                                 fm_cycles_count s' + samples * fm_cycles_ratio s'\<rparr>)
                      else Inl Buffer_overflow))))
      else Inr s)"

subsection \<open>Initialisation and reset\<close>

text \<open>
  \<open>sound_init\<close>: the FM chip is chosen from \<open>system_hw\<close> and, where the Nuked core is
  compiled in, from \<open>config.ym3438\<close>; then the PSG is initialised.
\<close>

definition sound_init ::
  "('o, 'm, 'p, 'g) externs \<Rightarrow> env \<Rightarrow> ('o, 'm, 'p, 'g) sound
     \<Rightarrow> ('o, 'm, 'p, 'g) sound" where
  "sound_init E c s =
     (let s1 =
        (if system_hw c AND SYSTEM_PBC c = SYSTEM_MD c then
           (if HAVE_YM3438_CORE c \<and> config_ym3438 c \<noteq> 0 then
              s\<lparr>ym3438 := ym3438_zero E,
                ym3438_sample := (0, 0),
                ym3438_accm := replicate 24 (0, 0),
                YM_Reset := Some Fn_YM3438_Reset,
                YM_Update := Some Fn_YM3438_Update,
                YM_Write := Some Fn_YM3438_Write,
                YM_Read := Some Fn_YM3438_Read,
                fm_cycles_ratio := 6 * 7\<rparr>
            else
              s\<lparr>ym2612 := YM2612Config E (config_dac_bits c) (YM2612Init E (ym2612 s)),
                YM_Reset := Some Fn_YM2612ResetChip,
                YM_Update := Some Fn_YM2612Update,
                YM_Write := Some Fn_YM2612Write,
                YM_Read := Some Fn_YM2612Read,
                fm_cycles_ratio := 144 * 7\<rparr>)
         else
           s\<lparr>ym2413 := YM2413Init E (ym2413 s),
             YM_Reset := Some Fn_YM2413ResetChip,
             YM_Update := Some Fn_YM2413Update,
             YM_Write := Some Fn_YM2413Write,
             YM_Read := None,
             fm_cycles_ratio := 72 * 15\<rparr>)
      in s1\<lparr>psg := psg_init E
                 (if system_hw c = SYSTEM_SG c then PSG_DISCRETE else PSG_INTEGRATED)
                 (psg s1)\<rparr>)"

definition sound_reset ::
  "('o, 'm, 'p, 'g) externs \<Rightarrow> env \<Rightarrow> ('o, 'm, 'p, 'g) sound
     \<Rightarrow> fault + ('o, 'm, 'p, 'g) sound" where
  "sound_reset E c s =
     (case call_YM_Reset E s of
        Inl e \<Rightarrow> Inl e
      | Inr s1 \<Rightarrow>
          Inr (s1\<lparr>psg := psg_config E 0 (config_psg_preamp c) 0xff (psg_reset E (psg s1)),
                 fm_last := (0, 0),
                 fm_ptr := Some 0,
                 fm_cycles_start := 0,
                 fm_cycles_count := 0\<rparr>))"

subsection \<open>The end of a frame\<close>

text \<open>
  The two \<open>do ... while\<close> loops of \<open>sound_update\<close>. The first argument is what is left
  of \<open>fm_buffer\<close> from \<open>ptr\<close> on; \<open>time\<close> is an \<open>int\<close> in C, but it is added to and
  compared with \<open>unsigned int\<close>s, so it is kept as the same 32 bits; the last argument
  is the list of resampler calls, to which the loop appends. The result is that list,
  the final \<open>time\<close> and the final \<open>prev_l\<close>, \<open>prev_r\<close>.
\<close>

fun flush_hq ::
  "cint list \<Rightarrow> cint \<Rightarrow> uint32 \<Rightarrow> uint32 \<Rightarrow> uint32 \<Rightarrow> cint \<times> cint \<Rightarrow> blip_call list
     \<Rightarrow> fault + (blip_call list \<times> uint32 \<times> (cint \<times> cint))" where
  "flush_hq (x # y # rest) preamp ratio cycles time prev calls =
     (let l = cdiv (x * preamp) 100;
          r = cdiv (y * preamp) 100;
          calls' = calls @ [Blip_add_delta time (l - fst prev) (r - snd prev)];
          time' = time + ratio
      in if time' < cycles then flush_hq rest preamp ratio cycles time' (l, r) calls'
         else Inr (calls', time', (l, r)))"
| "flush_hq rest preamp ratio cycles time prev calls = Inl Buffer_overrun"

fun flush_fast ::
  "cint list \<Rightarrow> cint \<Rightarrow> uint32 \<Rightarrow> uint32 \<Rightarrow> uint32 \<Rightarrow> cint \<times> cint \<Rightarrow> blip_call list
     \<Rightarrow> fault + (blip_call list \<times> uint32 \<times> (cint \<times> cint))" where
  "flush_fast (x # y # rest) preamp ratio cycles time prev calls =
     (let l = cdiv (x * preamp) 100;
          r = cdiv (y * preamp) 100;
          calls' = calls @ [Blip_add_delta_fast time (l - fst prev) (r - snd prev)];
          time' = time + ratio
      in if time' < cycles then flush_fast rest preamp ratio cycles time' (l, r) calls'
         else Inr (calls', time', (l, r)))"
| "flush_fast rest preamp ratio cycles time prev calls = Inl Buffer_overrun"

text \<open>\<open>sound_update\<close> returns the number of available samples and the new state.\<close>

definition sound_update ::
  "('o, 'm, 'p, 'g) externs \<Rightarrow> env \<Rightarrow> uint32 \<Rightarrow> ('o, 'm, 'p, 'g) sound
     \<Rightarrow> fault + (cint \<times> ('o, 'm, 'p, 'g) sound)" where
  "sound_update E c cycles s =
     (case fm_update E cycles (s\<lparr>psg := psg_end_frame E cycles (psg s)\<rparr>) of
        Inl e \<Rightarrow> Inl e
      | Inr s1 \<Rightarrow>
          (case (if config_hq_fm c \<noteq> 0
                 then flush_hq (fm_buffer s1) (config_fm_preamp c) (fm_cycles_ratio s1)
                        cycles (fm_cycles_start s1) (fm_last s1) (blips s1)
                 else flush_fast (fm_buffer s1) (config_fm_preamp c) (fm_cycles_ratio s1)
                        cycles (fm_cycles_start s1) (fm_last s1) (blips s1)) of
             Inl e \<Rightarrow> Inl e
           | Inr (calls, time, prev) \<Rightarrow>
               (let s2 = s1\<lparr>fm_ptr := Some 0,
                            fm_last := prev,
                            fm_cycles_start := time - cycles,
                            fm_cycles_count := time - cycles,
                            blips := calls @ [Blip_end_frame cycles]\<rparr>
                in Inr (blip_samples_avail E (blips s2), s2))))"

subsection \<open>Register accesses\<close>

definition fm_reset ::
  "('o, 'm, 'p, 'g) externs \<Rightarrow> uint32 \<Rightarrow> ('o, 'm, 'p, 'g) sound
     \<Rightarrow> fault + ('o, 'm, 'p, 'g) sound" where
  "fm_reset E cycles s =
     (case fm_update E cycles s of Inl e \<Rightarrow> Inl e | Inr s1 \<Rightarrow> call_YM_Reset E s1)"

definition fm_write ::
  "('o, 'm, 'p, 'g) externs \<Rightarrow> uint32 \<Rightarrow> uint32 \<Rightarrow> uint32 \<Rightarrow> ('o, 'm, 'p, 'g) sound
     \<Rightarrow> fault + ('o, 'm, 'p, 'g) sound" where
  "fm_write E cycles address data s =
     (case fm_update E cycles s of
        Inl e \<Rightarrow> Inl e
      | Inr s1 \<Rightarrow> call_YM_Write E address data s1)"

definition fm_read ::
  "('o, 'm, 'p, 'g) externs \<Rightarrow> uint32 \<Rightarrow> uint32 \<Rightarrow> ('o, 'm, 'p, 'g) sound
     \<Rightarrow> fault + (uint32 \<times> ('o, 'm, 'p, 'g) sound)" where
  "fm_read E cycles address s =
     (case fm_update E cycles s of
        Inl e \<Rightarrow> Inl e
      | Inr s1 \<Rightarrow> call_YM_Read E address s1)"

subsection \<open>Saving and loading the context\<close>

text \<open>
  A 32-bit object copied with \<open>memcpy\<close> is four bytes, the low byte first
  (a little-endian host).
\<close>

definition bytes_of_word32 :: "32 word \<Rightarrow> uint8 list" where
  "bytes_of_word32 w =
     [ucast w, ucast (drop_bit 8 w), ucast (drop_bit 16 w), ucast (drop_bit 24 w)]"

fun word32_of_bytes :: "uint8 list \<Rightarrow> 32 word" where
  "word32_of_bytes (b0 # b1 # b2 # b3 # rest) =
     ucast b0 OR push_bit 8 (ucast b1) OR push_bit 16 (ucast b2) OR push_bit 24 (ucast b3)"
| "word32_of_bytes rest = 0"

definition bytes_of_pair :: "cint \<times> cint \<Rightarrow> uint8 list" where
  "bytes_of_pair p = bytes_of_word32 (fst p) @ bytes_of_word32 (snd p)"

definition pair_of_bytes :: "uint8 list \<Rightarrow> cint \<times> cint" where
  "pair_of_bytes bs = (word32_of_bytes bs, word32_of_bytes (drop 4 bs))"

text \<open>The image of \<open>int ym3438_accm[24][2]\<close> and its inverse.\<close>

definition bytes_of_accm :: "(cint \<times> cint) list \<Rightarrow> uint8 list" where
  "bytes_of_accm rows = concat (map bytes_of_pair rows)"

definition accm_of_bytes :: "uint8 list \<Rightarrow> (cint \<times> cint) list" where
  "accm_of_bytes bs = map (\<lambda>j. pair_of_bytes (drop (8 * j) bs)) [0..<24]"

text \<open>
  Modelled from the spec: the macro \<open>load_param\<close> is not in the source file; the
  persisted fields lie one after the other, so it reads \<open>sz\<close> bytes at the running
  offset \<open>bufferptr\<close> and advances the offset by \<open>sz\<close>. Reading past the end of the
  saved bytes is a fault. Its counterpart \<open>save_param\<close> appends the bytes of a field.
\<close>

definition load_param :: "nat \<Rightarrow> uint8 list \<Rightarrow> nat \<Rightarrow> fault + (uint8 list \<times> nat)" where
  "load_param sz state bufferptr =
     (if bufferptr + sz \<le> length state
      then Inr (take sz (drop bufferptr state), bufferptr + sz)
      else Inl State_overrun)"



text \<open>
  \<open>sound_context_load\<close> returns \<open>bufferptr\<close> and the new state. The first part reads
  the chip; its result is the offset reached and the state so far.
\<close>

definition load_chip ::
  "('o, 'm, 'p, 'g) externs \<Rightarrow> env \<Rightarrow> uint8 list \<Rightarrow> ('o, 'm, 'p, 'g) sound
     \<Rightarrow> fault + (nat \<times> ('o, 'm, 'p, 'g) sound)" where
  "load_chip E c state s =
     (if system_hw c AND SYSTEM_PBC c = SYSTEM_MD c then
        (if HAVE_YM3438_CORE c then
           (case load_param 1 state 0 of
              Inl e \<Rightarrow> Inl e
            | Inr (b, p1) \<Rightarrow>
                if hd b \<noteq> 0 then
                  (case load_param (ym3438_size E) state p1 of
                     Inl e \<Rightarrow> Inl e
                   | Inr (b2, p2) \<Rightarrow>
                  (case load_param (24 * 2 * 4) state p2 of
                     Inl e \<Rightarrow> Inl e
                   | Inr (b3, p3) \<Rightarrow>
                  (case load_param (2 * 4) state p3 of
                     Inl e \<Rightarrow> Inl e
                   | Inr (b4, p4) \<Rightarrow>
                  (case load_param 4 state p4 of
                     Inl e \<Rightarrow> Inl e
                   | Inr (b5, p5) \<Rightarrow>
                       Inr (p5, s\<lparr>ym3438 := ym3438_of_bytes E b2,
                                  ym3438_accm := accm_of_bytes b3,
                                  ym3438_sample := pair_of_bytes b4,
                                  ym3438_cycles := word32_of_bytes b5\<rparr>)))))
                else
                  (let (n, chip) = YM2612LoadContext E (drop 1 state) (ym2612 s)
                   in Inr (p1 + n,
                           s\<lparr>ym2612 := YM2612Config E (config_dac_bits c) chip\<rparr>)))
         else
           (let (n, chip) = YM2612LoadContext E state (ym2612 s)
            in Inr (n, s\<lparr>ym2612 := YM2612Config E (config_dac_bits c) chip\<rparr>)))
      else
        (case load_param (YM2413GetContextSize E) state 0 of
           Inl e \<Rightarrow> Inl e
         | Inr (b, p1) \<Rightarrow> Inr (p1, s\<lparr>ym2413 := YM2413SetContext E b (ym2413 s)\<rparr>)))"

definition sound_context_load ::
  "('o, 'm, 'p, 'g) externs \<Rightarrow> env \<Rightarrow> uint8 list \<Rightarrow> ('o, 'm, 'p, 'g) sound
     \<Rightarrow> fault + (int \<times> ('o, 'm, 'p, 'g) sound)" where
  "sound_context_load E c state s =
     (case load_chip E c state s of
        Inl e \<Rightarrow> Inl e
      | Inr (p, s1) \<Rightarrow>
          (let (n, g) = psg_context_load E (drop p state) (psg s1) in
           case load_param 4 state (p + n) of
             Inl e \<Rightarrow> Inl e
           | Inr (b, p') \<Rightarrow>
               Inr (int p', s1\<lparr>psg := g,
                              fm_cycles_start := word32_of_bytes b,
                              fm_cycles_count := word32_of_bytes b\<rparr>)))"

subsection \<open>The quantities the specification speaks of\<close>

text \<open>
  The number of samples owed for a target: the quotient of the cycles not yet covered
  by the clock ratio, rounded up. This is the specification's formula, on natural
  numbers; \<open>fm_samples\<close> above is the computation of the code.
\<close>

definition owed :: "nat \<Rightarrow> nat \<Rightarrow> nat \<Rightarrow> nat" where
  "owed target produced ratio = nat \<lceil>(real target - real produced) / real ratio\<rceil>"

text \<open>The number of samples a call \<open>fm_update(cycles)\<close> asks of the chip.\<close>

definition fm_request :: "uint32 \<Rightarrow> ('o, 'm, 'p, 'g) sound \<Rightarrow> nat" where
  "fm_request cycles s =
     (if cycles > fm_cycles_count s then nat (sint (fm_samples cycles s)) else 0)"

text \<open>
  A sequence of calls of \<open>fm_update\<close>, one for each target of the list; the result is
  the total number of samples asked of the chip and the final state.
\<close>

fun fm_update_all ::
  "('o, 'm, 'p, 'g) externs \<Rightarrow> uint32 list \<Rightarrow> ('o, 'm, 'p, 'g) sound
     \<Rightarrow> fault + (nat \<times> ('o, 'm, 'p, 'g) sound)" where
  "fm_update_all E [] s = Inr (0, s)"
| "fm_update_all E (c # cs) s =
     (case fm_update E c s of
        Inl e \<Rightarrow> Inl e
      | Inr s1 \<Rightarrow>
          (case fm_update_all E cs s1 of
             Inl e \<Rightarrow> Inl e
           | Inr (n, s2) \<Rightarrow> Inr (fm_request c s + n, s2)))"

text \<open>
  The part of the state that no call into an FM chip touches (the scheduler's statics,
  the resampler and the PSG), and the
  conditions under which the selected chip generates samples without a fault: a
  function is bound, and for the Nuked core the accumulator has its 24 rows and the
  clock index lies inside it.
\<close>

definition sched ::
  "('o, 'm, 'p, 'g) sound \<Rightarrow>
     cint list \<times> (cint \<times> cint) \<times> nat option \<times> uint32 \<times> uint32 \<times> uint32
       \<times> reset_fn option \<times> update_fn option \<times> write_fn option \<times> read_fn option
       \<times> blip_call list \<times> 'g" where
  "sched s = (fm_buffer s, fm_last s, fm_ptr s, fm_cycles_ratio s, fm_cycles_start s,
     fm_cycles_count s, YM_Reset s, YM_Update s, YM_Write s, YM_Read s, blips s, psg s)"

definition accm_ok :: "('o, 'm, 'p, 'g) sound \<Rightarrow> bool" where
  "accm_ok s \<longleftrightarrow> length (ym3438_accm s) = 24 \<and> unat (ym3438_cycles s) < 24"

definition backend_ok :: "('o, 'm, 'p, 'g) sound \<Rightarrow> bool" where
  "backend_ok s \<longleftrightarrow>
     (case YM_Update s of
        None \<Rightarrow> False
      | Some Fn_YM3438_Update \<Rightarrow> accm_ok s
      | Some Fn_YM2612Update \<Rightarrow> True
      | Some Fn_YM2413Update \<Rightarrow> True)"

subsection \<open>Test fixtures\<close>

text \<open>
  The statics as the C program starts with them: everything zero, every pointer null.
\<close>

definition power_on :: "bool \<Rightarrow> 'o \<Rightarrow> 'm \<Rightarrow> 'p \<Rightarrow> 'g \<Rightarrow> ('o, 'm, 'p, 'g) sound" where
  "power_on have_core chip3438 chip2612 chip2413 chip_psg =
     \<lparr>fm_buffer = replicate (fm_buffer_len have_core) 0,
      fm_last = (0, 0),
      fm_ptr = None,
      fm_cycles_ratio = 0,
      fm_cycles_start = 0,
      fm_cycles_count = 0,
      YM_Reset = None,
      YM_Update = None,
      YM_Write = None,
      YM_Read = None,
      ym3438 = chip3438,
      ym3438_accm = replicate 24 (0, 0),
      ym3438_sample = (0, 0),
      ym3438_cycles = 0,
      ym2612 = chip2612,
      ym2413 = chip2413,
      psg = chip_psg,
      blips = []\<rparr>"

text \<open>
  Chips without a state of their own: a generate call writes the pairs \<open>f 0\<close>,
  \<open>f 1\<close>, ...; a saved context is empty.
\<close>

definition test_chip :: "(nat \<Rightarrow> cint \<times> cint) \<Rightarrow> (unit, unit, unit, unit) externs" where
  "test_chip f =
     \<lparr>OPN2_Reset = (\<lambda>u. u),
      OPN2_Clock = (\<lambda>u. (f 0, u)),
      OPN2_Write = (\<lambda>a v u. u),
      OPN2_Read = (\<lambda>a u. (0, u)),
      ym3438_zero = (),
      ym3438_size = 0,
      ym3438_bytes = (\<lambda>u. []),
      ym3438_of_bytes = (\<lambda>bs. ()),
      YM2612Init = (\<lambda>u. u),
      YM2612Config = (\<lambda>d u. u),
      YM2612ResetChip = (\<lambda>u. u),
      YM2612Update = (\<lambda>n u. (f, u)),
      YM2612Write = (\<lambda>a v u. u),
      YM2612Read = (\<lambda>a u. (0, u)),
      YM2612SaveContext = (\<lambda>u. []),
      YM2612LoadContext = (\<lambda>bs u. (0, u)),
      YM2413Init = (\<lambda>u. u),
      YM2413ResetChip = (\<lambda>u. u),
      YM2413Update = (\<lambda>n u. (f, u)),
      YM2413Write = (\<lambda>a v u. u),
      YM2413GetContextSize = 0,
      YM2413GetContext = (\<lambda>u. []),
      YM2413SetContext = (\<lambda>bs u. u),
      psg_init = (\<lambda>t u. u),
      psg_reset = (\<lambda>u. u),
      psg_config = (\<lambda>a b c u. u),
      psg_end_frame = (\<lambda>cycles u. u),
      psg_context_save = (\<lambda>u. []),
      psg_context_load = (\<lambda>bs u. (0, u)),
      blip_samples_avail = (\<lambda>calls. 0)\<rparr>"

text \<open>
  A Mega Drive with the MAME YM2612, FM amplification at 100 percent and band-limited
  mixing; the hardware constants have the values of the emulator's headers.
\<close>

definition md_env :: env where
  "md_env =
     \<lparr>HAVE_YM3438_CORE = False,
      SYSTEM_SG = 0x10,
      SYSTEM_MD = 0x80,
      SYSTEM_PBC = 0x81,
      system_hw = 0x80,
      config_ym3438 = 0,
      config_dac_bits = 14,
      config_fm_preamp = 100,
      config_psg_preamp = 150,
      config_hq_fm = 1\<rparr>"

text \<open>The state of that machine after \<open>sound_init\<close> and \<open>sound_reset\<close>.\<close>

definition md_start :: "(unit, unit, unit, unit) sound" where
  "md_start =
     \<lparr>fm_buffer = replicate 2160 0,
      fm_last = (0, 0),
      fm_ptr = Some 0,
      fm_cycles_ratio = 1008,
      fm_cycles_start = 0,
      fm_cycles_count = 0,
      YM_Reset = Some Fn_YM2612ResetChip,
      YM_Update = Some Fn_YM2612Update,
      YM_Write = Some Fn_YM2612Write,
      YM_Read = Some Fn_YM2612Read,
      ym3438 = (),
      ym3438_accm = replicate 24 (0, 0),
      ym3438_sample = (0, 0),
      ym3438_cycles = 0,
      ym2612 = (),
      ym2413 = (),
      psg = (),
      blips = []\<rparr>"

subsection \<open>The frame mixer of the specification\<close>

text \<open>
  Step 3 of the specification's frame mixer, without the resampler: walk the buffer
  from its start; amplify each pair (integer scale, truncating division); take the
  delta from the pair before; the timestamps start at the frame start and grow by the
  clock ratio; go on while the timestamp is below the frame's cycles. The result is
  the list of timestamps with their deltas, the final timestamp and the last pair.
\<close>

fun flush_deltas ::
  "cint list \<Rightarrow> cint \<Rightarrow> uint32 \<Rightarrow> uint32 \<Rightarrow> uint32 \<Rightarrow> cint \<times> cint
     \<Rightarrow> fault + ((uint32 \<times> cint \<times> cint) list \<times> uint32 \<times> (cint \<times> cint))" where
  "flush_deltas (x # y # rest) preamp ratio cycles time prev =
     (let l = cdiv (x * preamp) 100;
          r = cdiv (y * preamp) 100;
          d = (time, l - fst prev, r - snd prev);
          time' = time + ratio
      in if time' < cycles then
           (case flush_deltas rest preamp ratio cycles time' (l, r) of
              Inl e \<Rightarrow> Inl e
            | Inr (ds, t, p) \<Rightarrow> Inr (d # ds, t, p))
         else Inr ([d], time', (l, r)))"
| "flush_deltas rest preamp ratio cycles time prev = Inl Buffer_overrun"

text \<open>The two entry points of the resampler a delta can be handed to.\<close>

definition band_limited :: "uint32 \<times> cint \<times> cint \<Rightarrow> blip_call" where
  "band_limited d = Blip_add_delta (fst d) (fst (snd d)) (snd (snd d))"

definition linear :: "uint32 \<times> cint \<times> cint \<Rightarrow> blip_call" where
  "linear d = Blip_add_delta_fast (fst d) (fst (snd d)) (snd (snd d))"

text \<open>
  Steps 1 to 3 and 5 to 7 of the frame mixer: the PSG and the FM chip are run to the
  end of the frame, the deltas are computed, the carry state, the buffer position and
  the two counters are set. The mixing-quality flag is not looked at.
\<close>

definition frame_mix ::
  "('o, 'm, 'p, 'g) externs \<Rightarrow> env \<Rightarrow> uint32 \<Rightarrow> ('o, 'm, 'p, 'g) sound
     \<Rightarrow> fault + ((uint32 \<times> cint \<times> cint) list \<times> ('o, 'm, 'p, 'g) sound)" where
  "frame_mix E c cycles s =
     (case fm_update E cycles (s\<lparr>psg := psg_end_frame E cycles (psg s)\<rparr>) of
        Inl e \<Rightarrow> Inl e
      | Inr s1 \<Rightarrow>
          (case flush_deltas (fm_buffer s1) (config_fm_preamp c) (fm_cycles_ratio s1)
                  cycles (fm_cycles_start s1) (fm_last s1) of
             Inl e \<Rightarrow> Inl e
           | Inr (ds, time, prev) \<Rightarrow>
               Inr (ds, s1\<lparr>fm_ptr := Some 0,
                           fm_last := prev,
                           fm_cycles_start := time - cycles,
                           fm_cycles_count := time - cycles\<rparr>)))"

text \<open>A chip whose generate call writes the pairs (0, 0), (1, 1), (2, 2), ...\<close>

definition ramp :: "nat \<Rightarrow> cint \<times> cint" where
  "ramp i = (of_nat i, of_nat i)"

text \<open>
  The Mega Drive after a first frame of 1500 cycles with that chip: two samples were
  generated, the last one is the carry state, and 516 cycles of the second sample
  reach into the next frame.
\<close>

definition md_frame1 :: "(unit, unit, unit, unit) sound" where
  "md_frame1 =
     md_start\<lparr>fm_buffer := [0, 0, 1, 1] @ replicate 2156 0,
              fm_last := (1, 1),
              fm_cycles_start := 516,
              fm_cycles_count := 516,
              blips := [Blip_add_delta 0 0 0, Blip_add_delta 1008 1 1,
                        Blip_end_frame 1500]\<rparr>"

subsection \<open>The states of a session\<close>

text \<open>
  The states the module can be in after \<open>sound_init\<close> and \<open>sound_reset\<close>, applied to
  statics whose \<open>fm_buffer\<close> has its declared length, and any sequence of the
  operations that follow a reset: \<open>fm_update\<close>, \<open>fm_reset\<close>, \<open>fm_write\<close>, \<open>fm_read\<close>,
  \<open>sound_update\<close> and \<open>sound_context_load\<close>, each with any argument, as long as none
  of them faults.
\<close>

inductive reachable ::
  "('o, 'm, 'p, 'g) externs \<Rightarrow> env \<Rightarrow> ('o, 'm, 'p, 'g) sound \<Rightarrow> bool"
  for E :: "('o, 'm, 'p, 'g) externs" and c :: env where
  after_reset:
    "length (fm_buffer s0) = fm_buffer_len (HAVE_YM3438_CORE c)
       \<Longrightarrow> sound_reset E c (sound_init E c s0) = Inr s
       \<Longrightarrow> reachable E c s"
| after_fm_update:
    "reachable E c s \<Longrightarrow> fm_update E cycles s = Inr s' \<Longrightarrow> reachable E c s'"
| after_fm_reset:
    "reachable E c s \<Longrightarrow> fm_reset E cycles s = Inr s' \<Longrightarrow> reachable E c s'"
| after_fm_write:
    "reachable E c s \<Longrightarrow> fm_write E cycles address data s = Inr s'
       \<Longrightarrow> reachable E c s'"
| after_fm_read:
    "reachable E c s \<Longrightarrow> fm_read E cycles address s = Inr (v, s') \<Longrightarrow> reachable E c s'"
| after_sound_update:
    "reachable E c s \<Longrightarrow> sound_update E c cycles s = Inr (n, s') \<Longrightarrow> reachable E c s'"
| after_context_load:
    "reachable E c s \<Longrightarrow> sound_context_load E c state s = Inr (n, s')
       \<Longrightarrow> reachable E c s'"

text \<open>
  What holds in every state of a session: the buffer pointer lies inside the buffer,
  the ratio is one of those \<open>sound_init\<close> assigns, and \<open>fm_cycles_count\<close> is ahead of
  \<open>fm_cycles_start\<close> by the ratio times a number of samples that the part of the
  buffer below the pointer can hold.
\<close>

definition session_inv :: "('o, 'm, 'p, 'g) sound \<Rightarrow> bool" where
  "session_inv s \<longleftrightarrow>
     (\<exists>p k. fm_ptr s = Some p \<and> 2 * k \<le> p \<and> p \<le> length (fm_buffer s)
        \<and> length (fm_buffer s) \<le> fm_buffer_len True
        \<and> 2 \<le> unat (fm_cycles_ratio s) \<and> unat (fm_cycles_ratio s) \<le> 1080
        \<and> fm_cycles_count s = fm_cycles_start s + of_nat k * fm_cycles_ratio s)"

text \<open>
  Chips that only keep a log: the state of each module is the list of the names of
  the functions that were called on it, in order.
\<close>

definition log_chip :: "(string list, string list, string list, string list) externs" where
  "log_chip =
     \<lparr>OPN2_Reset = (\<lambda>l. l @ [''OPN2_Reset'']),
      OPN2_Clock = (\<lambda>l. ((0, 0), l @ [''OPN2_Clock''])),
      OPN2_Write = (\<lambda>a v l. l @ [''OPN2_Write'']),
      OPN2_Read = (\<lambda>a l. (0, l @ [''OPN2_Read''])),
      ym3438_zero = [],
      ym3438_size = 0,
      ym3438_bytes = (\<lambda>l. []),
      ym3438_of_bytes = (\<lambda>bs. []),
      YM2612Init = (\<lambda>l. l @ [''YM2612Init'']),
      YM2612Config = (\<lambda>d l. l @ [''YM2612Config'']),
      YM2612ResetChip = (\<lambda>l. l @ [''YM2612ResetChip'']),
      YM2612Update = (\<lambda>n l. (\<lambda>i. (0, 0), l @ [''YM2612Update''])),
      YM2612Write = (\<lambda>a v l. l @ [''YM2612Write'']),
      YM2612Read = (\<lambda>a l. (0, l @ [''YM2612Read''])),
      YM2612SaveContext = (\<lambda>l. []),
      YM2612LoadContext = (\<lambda>bs l. (0, l @ [''YM2612LoadContext''])),
      YM2413Init = (\<lambda>l. l @ [''YM2413Init'']),
      YM2413ResetChip = (\<lambda>l. l @ [''YM2413ResetChip'']),
      YM2413Update = (\<lambda>n l. (\<lambda>i. (0, 0), l @ [''YM2413Update''])),
      YM2413Write = (\<lambda>a v l. l @ [''YM2413Write'']),
      YM2413GetContextSize = 0,
      YM2413GetContext = (\<lambda>l. []),
      YM2413SetContext = (\<lambda>bs l. l @ [''YM2413SetContext'']),
      psg_init = (\<lambda>t l. l @ [''psg_init'']),
      psg_reset = (\<lambda>l. l @ [''psg_reset'']),
      psg_config = (\<lambda>a b c l. l @ [''psg_config'']),
      psg_end_frame = (\<lambda>cycles l. l @ [''psg_end_frame'']),
      psg_context_save = (\<lambda>l. []),
      psg_context_load = (\<lambda>bs l. (0, l @ [''psg_context_load''])),
      blip_samples_avail = (\<lambda>calls. 0)\<rparr>"

subsection \<open>Comparing two instances\<close>

text \<open>
  The chip \<open>sound_init\<close> binds for a configuration, named by its generate function.
\<close>

definition selected_update :: "env \<Rightarrow> update_fn" where
  "selected_update c =
     (if system_hw c AND SYSTEM_PBC c = SYSTEM_MD c then
        (if HAVE_YM3438_CORE c \<and> config_ym3438 c \<noteq> 0 then Fn_YM3438_Update
         else Fn_YM2612Update)
      else Fn_YM2413Update)"

text \<open>The statics of the Nuked core.\<close>

definition chip3438 ::
  "('o, 'm, 'p, 'g) sound \<Rightarrow> 'o \<times> (cint \<times> cint) list \<times> (cint \<times> cint) \<times> uint32" where
  "chip3438 s = (ym3438 s, ym3438_accm s, ym3438_sample s, ym3438_cycles s)"



text \<open>
  Modelled from the spec: the resampler reconstructs the signal by summing the deltas
  it is handed (glossary, delta encoding). \<open>blip_sum\<close> is the level it reaches from a
  given level by a list of calls, \<open>blip_level\<close> the level of a resampler that was
  empty before these calls, and \<open>blip_signal\<close> the signal: each call with the level
  reached in place of the delta. The band-limited filtering, the conversion of the
  rate and the count of the samples available are not modelled.
\<close>

fun blip_sum :: "cint \<times> cint \<Rightarrow> blip_call list \<Rightarrow> cint \<times> cint" where
  "blip_sum lv [] = lv"
| "blip_sum lv (Blip_add_delta t l r # cs) = blip_sum (fst lv + l, snd lv + r) cs"
| "blip_sum lv (Blip_add_delta_fast t l r # cs) = blip_sum (fst lv + l, snd lv + r) cs"
| "blip_sum lv (Blip_end_frame t # cs) = blip_sum lv cs"

definition blip_level :: "blip_call list \<Rightarrow> cint \<times> cint" where
  "blip_level cs = blip_sum (0, 0) cs"

fun blip_signal :: "cint \<times> cint \<Rightarrow> blip_call list \<Rightarrow> blip_call list" where
  "blip_signal lv [] = []"
| "blip_signal lv (Blip_add_delta t l r # cs) =
     Blip_add_delta t (fst lv + l) (snd lv + r) # blip_signal (fst lv + l, snd lv + r) cs"
| "blip_signal lv (Blip_add_delta_fast t l r # cs) =
     Blip_add_delta_fast t (fst lv + l) (snd lv + r)
       # blip_signal (fst lv + l, snd lv + r) cs"
| "blip_signal lv (Blip_end_frame t # cs) = Blip_end_frame t # blip_signal lv cs"







subsection \<open>The persisted state of the specification\<close>

text \<open>
  The layout of the persisted state as the specification gives it: the backend
  discriminator (where more than one FM implementation is compiled in), the state
  of the selected backend, the state of the PSG, the frame-start counter.
\<close>

definition chip_context ::
  "('o, 'm, 'p, 'g) externs \<Rightarrow> env \<Rightarrow> ('o, 'm, 'p, 'g) sound \<Rightarrow> uint8 list" where
  "chip_context E c s =
     (case selected_update c of
        Fn_YM3438_Update \<Rightarrow>
          ym3438_bytes E (ym3438 s) @ bytes_of_accm (ym3438_accm s)
            @ bytes_of_pair (ym3438_sample s) @ bytes_of_word32 (ym3438_cycles s)
      | Fn_YM2612Update \<Rightarrow> YM2612SaveContext E (ym2612 s)
      | Fn_YM2413Update \<Rightarrow> YM2413GetContext E (ym2413 s))"

definition persisted ::
  "('o, 'm, 'p, 'g) externs \<Rightarrow> env \<Rightarrow> ('o, 'm, 'p, 'g) sound \<Rightarrow> uint8 list" where
  "persisted E c s =
     (if system_hw c AND SYSTEM_PBC c = SYSTEM_MD c \<and> HAVE_YM3438_CORE c
      then [config_ym3438 c] else [])
     @ chip_context E c s
     @ psg_context_save E (psg s)
     @ bytes_of_word32 (fm_cycles_start s)"

text \<open>
  What a load into the instance \<open>fresh\<close> of what the instance \<open>orig\<close> has saved is to
  restore: the state of the selected chip, the state of the PSG and the frame start,
  to which produced-through is set; everything else is as it is in \<open>fresh\<close>.
\<close>

definition restored ::
  "env \<Rightarrow> ('o, 'm, 'p, 'g) sound \<Rightarrow> ('o, 'm, 'p, 'g) sound \<Rightarrow> ('o, 'm, 'p, 'g) sound" where
  "restored c orig fresh =
     (case selected_update c of
        Fn_YM3438_Update \<Rightarrow>
          fresh\<lparr>ym3438 := ym3438 orig, ym3438_accm := ym3438_accm orig,
                ym3438_sample := ym3438_sample orig, ym3438_cycles := ym3438_cycles orig\<rparr>
      | Fn_YM2612Update \<Rightarrow> fresh\<lparr>ym2612 := ym2612 orig\<rparr>
      | Fn_YM2413Update \<Rightarrow> fresh\<lparr>ym2413 := ym2413 orig\<rparr>)
     \<lparr>psg := psg orig,
      fm_cycles_start := fm_cycles_start orig,
      fm_cycles_count := fm_cycles_start orig\<rparr>"

text \<open>
  What is assumed of the other modules: loading the context that the selected chip,
  and the PSG, of the instance \<open>s\<close> have saved into the instance \<open>t\<close> gives the state
  they have in \<open>s\<close> and reads as many bytes as were saved; the raw images of
  \<open>ym3438\<close> and of the YM2413 context have their declared sizes; configuring the DAC
  of the YM2612 again with the same precision changes nothing.
\<close>

definition contexts_round_trip ::
  "('o, 'm, 'p, 'g) externs \<Rightarrow> env \<Rightarrow> ('o, 'm, 'p, 'g) sound \<Rightarrow> ('o, 'm, 'p, 'g) sound
     \<Rightarrow> bool" where
  "contexts_round_trip E c s t \<longleftrightarrow>
     (\<forall>rest. psg_context_load E (psg_context_save E (psg s) @ rest) (psg t)
              = (length (psg_context_save E (psg s)), psg s))
     \<and> (case selected_update c of
          Fn_YM3438_Update \<Rightarrow>
            length (ym3438_bytes E (ym3438 s)) = ym3438_size E
            \<and> ym3438_of_bytes E (ym3438_bytes E (ym3438 s)) = ym3438 s
            \<and> length (ym3438_accm s) = 24
        | Fn_YM2612Update \<Rightarrow>
            (\<forall>rest. YM2612LoadContext E (YM2612SaveContext E (ym2612 s) @ rest) (ym2612 t)
                     = (length (YM2612SaveContext E (ym2612 s)), ym2612 s))
            \<and> YM2612Config E (config_dac_bits c) (ym2612 s) = ym2612 s
        | Fn_YM2413Update \<Rightarrow>
            length (YM2413GetContext E (ym2413 s)) = YM2413GetContextSize E
            \<and> YM2413SetContext E (YM2413GetContext E (ym2413 s)) (ym2413 t) = ym2413 s)"



section \<open>Properties\<close>

subsection \<open>The fixtures\<close>

lemma md_start_is_reset:
  "sound_reset (test_chip f) md_env
     (sound_init (test_chip f) md_env (power_on False () () () ())) = Inr md_start"
  by (simp add: sound_reset_def sound_init_def call_YM_Reset_def power_on_def test_chip_def
      md_env_def md_start_def fm_buffer_len_def)

lemma md_start_simps:
  "fm_buffer md_start = replicate 2160 0"
  "fm_last md_start = (0, 0)"
  "fm_ptr md_start = Some 0"
  "fm_cycles_ratio md_start = 1008"
  "fm_cycles_start md_start = 0"
  "fm_cycles_count md_start = 0"
  "YM_Update md_start = Some Fn_YM2612Update"
  "blips md_start = []"
  by (simp_all add: md_start_def)

lemma md_start_backend_ok: "backend_ok md_start"
  by (simp add: backend_ok_def md_start_simps)

subsection \<open>Calls into the chip\<close>

lemma mod24: "unat ((w :: 32 word) mod 24) < 24"
  by (simp add: unat_mod_distrib)

lemma YM3438_Update_step_ok:
  "accm_ok s \<Longrightarrow> \<exists>out s'. YM3438_Update_step E s = Inr (out, s') \<and> length out = 2
      \<and> sched s' = sched s \<and> accm_ok s'"
  by (simp add: YM3438_Update_step_def accm_ok_def sched_def Let_def mod24 split: prod.splits)

lemma YM3438_Update_ok:
  "accm_ok s \<Longrightarrow> \<exists>out s'. YM3438_Update E n s = Inr (out, s') \<and> length out = 2 * n
      \<and> sched s' = sched s \<and> accm_ok s'"
proof (induction n arbitrary: s)
  case 0
  then show ?case by simp
next
  case (Suc n)
  from YM3438_Update_step_ok [OF Suc.prems, of E]
  obtain out s1 where st: "YM3438_Update_step E s = Inr (out, s1)" "length out = 2"
    "sched s1 = sched s" "accm_ok s1" by blast
  from Suc.IH [OF st(4)]
  obtain outs s2 where r: "YM3438_Update E n s1 = Inr (outs, s2)" "length outs = 2 * n"
    "sched s2 = sched s1" "accm_ok s2" by blast
  show ?case using st r by simp
qed

lemma YM3438_Update_fields:
  "YM3438_Update E n s = Inr (out, s') \<Longrightarrow> length out = 2 * n \<and> sched s' = sched s"
proof (induction n arbitrary: s out s')
  case 0
  then show ?case by simp
next
  case (Suc n)
  then show ?case
    apply (simp split: sum.splits prod.splits)
    apply (auto simp: YM3438_Update_step_def Let_def sched_def split: if_splits prod.splits)
    done
qed

lemma length_interleave: "length (interleave f n) = 2 * n"
  by (induction n) (simp_all add: interleave_def)

lemma call_YM_Update_fields:
  "call_YM_Update E len s = Inr (vals, s') \<Longrightarrow> length vals = 2 * nat len \<and> sched s' = sched s"
  apply (simp add: call_YM_Update_def split: option.splits update_fn.splits prod.splits)
    apply (auto simp: length_interleave sched_def dest: YM3438_Update_fields)
  done

lemma call_YM_Update_ok:
  assumes "backend_ok s"
  shows "\<exists>vals s'. call_YM_Update E len s = Inr (vals, s') \<and> length vals = 2 * nat len
           \<and> sched s' = sched s \<and> backend_ok s'"
proof (cases "YM_Update s")
  case None
  with assms show ?thesis by (simp add: backend_ok_def)
next
  case (Some f)
  show ?thesis
  proof (cases f)
    case Fn_YM3438_Update
    with Some assms have ok: "accm_ok s" by (simp add: backend_ok_def)
    from YM3438_Update_ok [OF ok, of E "nat len"]
    obtain out s' where r: "YM3438_Update E (nat len) s = Inr (out, s')"
      "length out = 2 * nat len" "sched s' = sched s" "accm_ok s'" by blast
    from r(3) Some Fn_YM3438_Update have "YM_Update s' = Some Fn_YM3438_Update"
      by (simp add: sched_def)
    with r Some Fn_YM3438_Update show ?thesis
      by (simp add: call_YM_Update_def backend_ok_def)
  next
    case Fn_YM2612Update
    with Some show ?thesis
      by (simp add: call_YM_Update_def backend_ok_def sched_def length_interleave
          split: prod.splits)
  next
    case Fn_YM2413Update
    with Some show ?thesis
      by (simp add: call_YM_Update_def backend_ok_def sched_def length_interleave
          split: prod.splits)
  qed
qed

subsection \<open>The arithmetic of \<open>fm_update\<close>\<close>

lemma ceiling_nat_div:
  fixes a b :: nat
  assumes "0 < b"
  shows "nat \<lceil>real a / real b\<rceil> = (a + b - 1) div b"
proof -
  let ?q = "(a + b - 1) div b"
  have up: "a \<le> ?q * b"
  proof -
    have "a + b - 1 < (?q + 1) * b"
      using assms by (metis Suc_eq_plus1 dividend_less_div_times mult.commute mult_Suc)
    then show ?thesis by simp
  qed
  have lo: "?q * b < a + b"
  proof -
    have "?q * b \<le> a + b - 1" by simp
    then show ?thesis using assms by linarith
  qed
  have "\<lceil>real a / real b\<rceil> = int ?q"
  proof (rule ceiling_unique)
    show "real_of_int (int ?q) - 1 < real a / real b"
    proof -
      have "real (?q * b) < real (a + b)" using lo by (simp only: of_nat_less_iff)
      then have "(real ?q - 1) * real b < real a" by (simp add: algebra_simps)
      then show ?thesis using assms by (simp add: pos_less_divide_eq)
    qed
    show "real a / real b \<le> real_of_int (int ?q)"
    proof -
      have "real a \<le> real (?q * b)" using up by (simp only: of_nat_le_iff)
      then show ?thesis using assms by (simp add: pos_divide_le_eq)
    qed
  qed
  then show ?thesis by simp
qed

lemma fm_samples_unat:
  assumes lt: "fm_cycles_count s < cycles"
    and r0: "fm_cycles_ratio s \<noteq> 0"
    and nowrap: "unat cycles - unat (fm_cycles_count s) + unat (fm_cycles_ratio s) - 1 < 2 ^ 32"
  shows "unat (fm_samples cycles s) =
     (unat cycles - unat (fm_cycles_count s) + unat (fm_cycles_ratio s) - 1)
       div unat (fm_cycles_ratio s)"
proof -
  let ?c = "fm_cycles_count s" and ?r = "fm_cycles_ratio s"
  have d: "unat (cycles - ?c) = unat cycles - unat ?c"
    using lt by (simp add: unat_sub less_imp_le)
  have rpos: "0 < unat ?r" using r0 by (simp add: unat_gt_0)
  have r1: "unat (?r - 1) = unat ?r - 1"
    using r0 by (simp add: unat_minus_one)
  have "unat (cycles - ?c) + unat (?r - 1) < 2 ^ 32"
    using nowrap rpos d r1 by simp
  then have s: "unat (cycles - ?c + (?r - 1)) = unat (cycles - ?c) + unat (?r - 1)"
    by (simp add: unat_add_lem [THEN iffD1])
  have e: "cycles - ?c + ?r - 1 = cycles - ?c + (?r - 1)" by simp
  have "unat (fm_samples cycles s) = unat (cycles - ?c + (?r - 1)) div unat ?r"
    unfolding fm_samples_def unat_div e ..
  then have "unat (fm_samples cycles s) = (unat (cycles - ?c) + unat (?r - 1)) div unat ?r"
    by (simp only: s)
  then show ?thesis using d r1 rpos by simp
qed

lemma owed_eq:
  assumes "produced \<le> target" "0 < ratio"
  shows "owed target produced ratio = (target - produced + ratio - 1) div ratio"
proof -
  have "real target - real produced = real (target - produced)"
    using assms(1) by simp
  then have "owed target produced ratio = nat \<lceil>real (target - produced) / real ratio\<rceil>"
    by (simp only: owed_def)
  then show ?thesis using assms(2) by (simp only: ceiling_nat_div)
qed

lemma sint_small:
  fixes w :: "32 word"
  assumes "unat w < 2 ^ 31"
  shows "sint w = int (unat w)"
proof -
  have "int (unat w) < int (2 ^ 31)" using assms by (simp only: of_nat_less_iff)
  then have "uint w < 2 ^ 31" by simp
  moreover have "- (2 ^ 31) \<le> uint w"
    by (rule order_trans [of _ 0]) simp_all
  ultimately have "signed_take_bit 31 (uint w) = uint w"
    by (intro signed_take_bit_int_eq_self)
  then show ?thesis by (simp add: sint_uint)
qed

lemma unat_shift1:
  fixes w :: "32 word"
  assumes "unat w < 2 ^ 31"
  shows "unat (push_bit 1 w) = 2 * unat w"
proof -
  have "unat (2 :: 32 word) * unat w < 2 ^ LENGTH(32)" using assms by simp
  then have "unat (2 * w) = unat (2 :: 32 word) * unat w"
    by (simp only: unat_mult_lem)
  then show ?thesis by (simp add: push_bit_eq_mult mult.commute)
qed

lemma fm_buffer_len_bound: "fm_buffer_len hc < 2 ^ 31"
  by (simp add: fm_buffer_len_def)

subsection \<open>The advance operation\<close>

lemma fm_update_advance:
  assumes ok: "backend_ok s"
    and r0: "fm_cycles_ratio s \<noteq> 0"
    and nowrap: "unat cycles - unat (fm_cycles_count s) + unat (fm_cycles_ratio s) - 1 < 2 ^ 32"
    and ptr: "fm_ptr s = Some p"
    and len: "length (fm_buffer s) = fm_buffer_len hc"
    and fits: "p + 2 * owed (unat cycles) (unat (fm_cycles_count s)) (unat (fm_cycles_ratio s))
                 \<le> length (fm_buffer s)"
    and lt: "fm_cycles_count s < cycles"
  shows "\<exists>vals s1.
           call_YM_Update E
             (int (owed (unat cycles) (unat (fm_cycles_count s)) (unat (fm_cycles_ratio s)))) s
             = Inr (vals, s1)
           \<and> length vals
               = 2 * owed (unat cycles) (unat (fm_cycles_count s)) (unat (fm_cycles_ratio s))
           \<and> sched s1 = sched s \<and> backend_ok s1
           \<and> fm_request cycles s
               = owed (unat cycles) (unat (fm_cycles_count s)) (unat (fm_cycles_ratio s))
           \<and> fm_update E cycles s =
               Inr (s1\<lparr>fm_buffer := buffer_write (fm_buffer s) p vals,
                      fm_ptr := Some (p + 2 * owed (unat cycles) (unat (fm_cycles_count s))
                                               (unat (fm_cycles_ratio s))),
                      fm_cycles_count := fm_cycles_count s
                        + of_nat (owed (unat cycles) (unat (fm_cycles_count s))
                                    (unat (fm_cycles_ratio s)))
                          * fm_cycles_ratio s\<rparr>)"
proof -
  let ?n = "owed (unat cycles) (unat (fm_cycles_count s)) (unat (fm_cycles_ratio s))"
  have rpos: "0 < unat (fm_cycles_ratio s)" using r0 by (simp add: unat_gt_0)
  have le: "unat (fm_cycles_count s) \<le> unat cycles"
    using lt by (simp add: word_less_nat_alt)
  have n: "unat (fm_samples cycles s) = ?n"
    using fm_samples_unat [OF lt r0 nowrap] owed_eq [OF le rpos] by simp
  have small: "unat (fm_samples cycles s) < 2 ^ 31"
    using n fits len fm_buffer_len_bound [of hc] by linarith
  have si: "sint (fm_samples cycles s) = int ?n"
    using sint_small [OF small] n by simp
  have sh: "unat (push_bit 1 (fm_samples cycles s)) = 2 * ?n"
    using unat_shift1 [OF small] n by simp
  have sh2: "unat (fm_samples cycles s * 2) = 2 * ?n"
    using sh by (simp add: push_bit_eq_mult)
  have w: "fm_samples cycles s = of_nat ?n"
    using n by (metis of_nat_unat ucast_id)
  have rq: "fm_request cycles s = ?n"
    using lt by (simp add: fm_request_def si)
  from call_YM_Update_ok [OF ok, of E "int ?n"]
  obtain vals s1 where c: "call_YM_Update E (int ?n) s = Inr (vals, s1)"
    "length vals = 2 * ?n" "sched s1 = sched s" "backend_ok s1" by auto
  from c(3) have f: "fm_ptr s1 = fm_ptr s" "fm_buffer s1 = fm_buffer s"
    "fm_cycles_count s1 = fm_cycles_count s" "fm_cycles_ratio s1 = fm_cycles_ratio s"
    by (simp_all add: sched_def)
  have "fm_update E cycles s =
          Inr (s1\<lparr>fm_buffer := buffer_write (fm_buffer s) p vals,
                 fm_ptr := Some (p + 2 * ?n),
                 fm_cycles_count := fm_cycles_count s + of_nat ?n * fm_cycles_ratio s\<rparr>)"
    using lt r0 fits
    by (simp add: fm_update_def Let_def si c(1) c(2) f ptr sh2 w [symmetric])
  with c rq show ?thesis by blast
qed

text \<open>
  Claim C1, as amended. A call \<open>fm_update(cycles)\<close> with \<open>cycles\<close> above
  \<open>fm_cycles_count\<close> asks the bound chip for exactly
  \<open>owed = ceil((cycles - fm_cycles_count) / fm_cycles_ratio)\<close> samples, writes the
  \<open>2 * owed\<close> values the chip generates at \<open>fm_ptr\<close>, advances \<open>fm_ptr\<close> by \<open>2 * owed\<close>
  and \<open>fm_cycles_count\<close> by \<open>owed * fm_cycles_ratio\<close>, provided the sum
  \<open>cycles - fm_cycles_count + fm_cycles_ratio - 1\<close> fits in 32 bits, the ratio is not
  zero, a chip is bound and the samples fit into \<open>fm_buffer\<close>. A call with \<open>cycles\<close>
  not above \<open>fm_cycles_count\<close> returns the state as it is.
\<close>

theorem fm_update_owed:
  assumes ok: "backend_ok s"
    and r0: "fm_cycles_ratio s \<noteq> 0"
    and nowrap: "unat cycles - unat (fm_cycles_count s) + unat (fm_cycles_ratio s) - 1 < 2 ^ 32"
    and ptr: "fm_ptr s = Some p"
    and len: "length (fm_buffer s) = fm_buffer_len hc"
    and fits: "p + 2 * owed (unat cycles) (unat (fm_cycles_count s)) (unat (fm_cycles_ratio s))
                 \<le> length (fm_buffer s)"
  shows "(fm_cycles_count s < cycles \<longrightarrow>
           (\<exists>vals s1.
              call_YM_Update E
                (int (owed (unat cycles) (unat (fm_cycles_count s)) (unat (fm_cycles_ratio s)))) s
                = Inr (vals, s1)
              \<and> length vals
                  = 2 * owed (unat cycles) (unat (fm_cycles_count s)) (unat (fm_cycles_ratio s))
              \<and> fm_update E cycles s =
                  Inr (s1\<lparr>fm_buffer := buffer_write (fm_buffer s) p vals,
                         fm_ptr := Some (p + 2 * owed (unat cycles) (unat (fm_cycles_count s))
                                                  (unat (fm_cycles_ratio s))),
                         fm_cycles_count := fm_cycles_count s
                           + of_nat (owed (unat cycles) (unat (fm_cycles_count s))
                                       (unat (fm_cycles_ratio s)))
                             * fm_cycles_ratio s\<rparr>)))
       \<and> (cycles \<le> fm_cycles_count s \<longrightarrow> fm_update E cycles s = Inr s)"
proof (intro conjI impI)
  assume "cycles \<le> fm_cycles_count s"
  then show "fm_update E cycles s = Inr s"
    by (simp add: fm_update_def leD)
next
  assume "fm_cycles_count s < cycles"
  from fm_update_advance [OF ok r0 nowrap ptr len fits this, of E]
  show "\<exists>vals s1.
          call_YM_Update E
            (int (owed (unat cycles) (unat (fm_cycles_count s)) (unat (fm_cycles_ratio s)))) s
            = Inr (vals, s1)
          \<and> length vals
              = 2 * owed (unat cycles) (unat (fm_cycles_count s)) (unat (fm_cycles_ratio s))
          \<and> fm_update E cycles s =
              Inr (s1\<lparr>fm_buffer := buffer_write (fm_buffer s) p vals,
                     fm_ptr := Some (p + 2 * owed (unat cycles) (unat (fm_cycles_count s))
                                              (unat (fm_cycles_ratio s))),
                     fm_cycles_count := fm_cycles_count s
                       + of_nat (owed (unat cycles) (unat (fm_cycles_count s))
                                   (unat (fm_cycles_ratio s)))
                         * fm_cycles_ratio s\<rparr>)"
    by blast
qed

text \<open>
  The amended claim at the reset state of the Mega Drive: a target of 50000 cycles
  asks for 50 samples, a target of 0 for none.
\<close>

theorem fm_update_owed_witness:
  "owed (unat (50000 :: uint32)) (unat (fm_cycles_count md_start))
        (unat (fm_cycles_ratio md_start)) = 50
   \<and> (\<exists>vals s1. call_YM_Update (test_chip (\<lambda>i. (100, 100))) 50 md_start = Inr (vals, s1)
          \<and> length vals = 100
          \<and> fm_update (test_chip (\<lambda>i. (100, 100))) 50000 md_start =
               Inr (s1\<lparr>fm_buffer := buffer_write (fm_buffer md_start) 0 vals,
                      fm_ptr := Some 100,
                      fm_cycles_count := 50400\<rparr>))
   \<and> fm_update (test_chip (\<lambda>i. (100, 100))) 0 md_start = Inr md_start"
proof -
  have o: "owed (unat (50000 :: uint32)) (unat (fm_cycles_count md_start))
        (unat (fm_cycles_ratio md_start)) = 50"
    by (simp add: md_start_simps owed_eq)
  have fits: "0 + 2 * owed (unat (50000 :: uint32)) (unat (fm_cycles_count md_start))
        (unat (fm_cycles_ratio md_start)) \<le> length (fm_buffer md_start)"
    using o by (simp add: md_start_simps)
  have len: "length (fm_buffer md_start) = fm_buffer_len False"
    by (simp add: md_start_simps fm_buffer_len_def)
  have nowrap: "unat (50000 :: uint32) - unat (fm_cycles_count md_start)
        + unat (fm_cycles_ratio md_start) - 1 < 2 ^ 32"
    by (simp add: md_start_simps)
  have r0: "fm_cycles_ratio md_start \<noteq> 0" by (simp add: md_start_simps)
  note a = fm_update_owed [OF md_start_backend_ok r0 nowrap md_start_simps(3) len fits,
      of "test_chip (\<lambda>i. (100, 100))"]
  have nowrap0: "unat (0 :: uint32) - unat (fm_cycles_count md_start)
        + unat (fm_cycles_ratio md_start) - 1 < 2 ^ 32"
    by (simp add: md_start_simps)
  have fits0: "0 + 2 * owed (unat (0 :: uint32)) (unat (fm_cycles_count md_start))
        (unat (fm_cycles_ratio md_start)) \<le> length (fm_buffer md_start)"
    by (simp add: md_start_simps owed_eq)
  note b = fm_update_owed [OF md_start_backend_ok r0 nowrap0 md_start_simps(3) len fits0,
      of "test_chip (\<lambda>i. (100, 100))"]
  show ?thesis using a b o by (simp add: md_start_simps)
qed

text \<open>
  Claim C1 as it is stated fails where the 32-bit sum wraps around: at the reset state
  with a ratio of 1008, the target \<open>0xFFFFFFFF\<close> lies above \<open>fm_cycles_count\<close> and
  4260881 samples are owed, but \<open>fm_update\<close> asks for none and leaves the state as it
  is.
\<close>

theorem fm_update_owed_counterexample:
  "fm_cycles_count md_start < 0xFFFFFFFF
   \<and> owed (unat (0xFFFFFFFF :: uint32)) (unat (fm_cycles_count md_start))
        (unat (fm_cycles_ratio md_start)) = 4260881
   \<and> fm_request 0xFFFFFFFF md_start = 0
   \<and> fm_update (test_chip (\<lambda>i. (100, 100))) 0xFFFFFFFF md_start = Inr md_start"
proof -
  have s: "fm_samples 0xFFFFFFFF md_start = 0"
    by (simp add: fm_samples_def md_start_simps)
  have "fm_update (test_chip (\<lambda>i. (100, 100))) 0xFFFFFFFF md_start = Inr md_start"
    by (simp add: fm_update_def s call_YM_Update_def md_start_simps test_chip_def
        interleave_def buffer_write_def)
  then show ?thesis
    by (simp add: md_start_simps owed_eq fm_request_def s)
qed

subsection \<open>The loops of \<open>sound_update\<close>\<close>

lemma flush_hq_deltas:
  "flush_hq buf preamp ratio cycles time prev calls =
     (case flush_deltas buf preamp ratio cycles time prev of
        Inl e \<Rightarrow> Inl e
      | Inr (ds, t, p) \<Rightarrow> Inr (calls @ map band_limited ds, t, p))"
proof (induction buf preamp ratio cycles time prev arbitrary: calls rule: flush_deltas.induct)
  case (1 x y rest preamp ratio cycles time prev)
  show ?case
  proof (cases "time + ratio < cycles")
    case True
    then show ?thesis
      using "1" [OF refl refl refl refl True]
      by (simp add: Let_def band_limited_def split: sum.splits)
  next
    case False
    then show ?thesis by (simp add: Let_def band_limited_def)
  qed
qed simp_all

lemma flush_fast_deltas:
  "flush_fast buf preamp ratio cycles time prev calls =
     (case flush_deltas buf preamp ratio cycles time prev of
        Inl e \<Rightarrow> Inl e
      | Inr (ds, t, p) \<Rightarrow> Inr (calls @ map linear ds, t, p))"
proof (induction buf preamp ratio cycles time prev arbitrary: calls rule: flush_deltas.induct)
  case (1 x y rest preamp ratio cycles time prev)
  show ?case
  proof (cases "time + ratio < cycles")
    case True
    then show ?thesis
      using "1" [OF refl refl refl refl True]
      by (simp add: Let_def linear_def split: sum.splits)
  next
    case False
    then show ?thesis by (simp add: Let_def linear_def)
  qed
qed simp_all

lemma mod_wrap:
  fixes a n :: nat
  assumes "n \<le> a" "a < 2 * n"
  shows "a mod n = a - n"
  using assms by (simp add: le_mod_geq)

lemma unat_add_cases:
  fixes t r :: "32 word"
  shows "unat (t + r) = unat t + unat r
       \<or> (unat (t + r) + 2 ^ 32 = unat t + unat r)"
proof (cases "unat t + unat r < 2 ^ 32")
  case True
  then have "unat t + unat r < 2 ^ LENGTH(32)" by simp
  then show ?thesis by (simp only: unat_add_lem [THEN iffD1] simp_thms)
next
  case False
  have b: "unat t < 2 ^ 32" "unat r < 2 ^ 32"
    using unsigned_less [of t] unsigned_less [of r] by simp_all
  have "unat (t + r) = (unat t + unat r) mod 2 ^ 32"
    by (simp add: unat_word_ariths(1))
  also have "\<dots> = unat t + unat r - 2 ^ 32"
    by (rule mod_wrap) (use False b in linarith)+
  finally show ?thesis using False by linarith
qed

lemma step_residual:
  fixes t r c :: "32 word"
  assumes "t < c" "\<not> t + r < c"
  shows "unat (t + r - c) < unat r"
proof -
  have le: "c \<le> t + r" using assms(2) by simp
  have tc: "unat t < unat c" using assms(1) by (simp add: word_less_nat_alt)
  have cl: "unat c \<le> unat (t + r)" using le by (simp add: word_le_nat_alt)
  have b: "unat r < 2 ^ 32" using unsigned_less [of r] by simp
  have nowrap: "unat (t + r) = unat t + unat r"
    using unat_add_cases [of t r] tc cl b by linarith
  have "unat (t + r - c) = unat (t + r) - unat c"
    using le by (simp add: unat_sub)
  then show ?thesis using nowrap tc cl by linarith
qed

lemma flush_deltas_residual:
  "flush_deltas buf preamp ratio cycles time prev = Inr (ds, t, p) \<Longrightarrow> time < cycles
     \<Longrightarrow> cycles \<le> t \<and> unat (t - cycles) < unat ratio"
proof (induction buf preamp ratio cycles time prev arbitrary: ds t p rule: flush_deltas.induct)
  case (1 x y rest preamp ratio cycles time prev)
  show ?case
  proof (cases "time + ratio < cycles")
    case True
    with "1.prems" obtain ds' where
      "flush_deltas rest preamp ratio cycles (time + ratio)
         (cdiv (x * preamp) 100, cdiv (y * preamp) 100) = Inr (ds', t, p)"
      by (auto simp: Let_def split: sum.splits)
    from "1.IH" [OF refl refl refl refl True this True] show ?thesis .
  next
    case False
    with "1.prems" have t: "t = time + ratio" by (simp add: Let_def)
    show ?thesis using False step_residual [OF "1.prems"(2) False] by (simp add: t)
  qed
qed simp_all


lemma length_buffer_write:
  "p + length vals \<le> length buf \<Longrightarrow> length (buffer_write buf p vals) = length buf"
  by (simp add: buffer_write_def)

lemma fm_update_sched:
  assumes "fm_update E cycles s = Inr s'"
  shows "fm_cycles_start s' = fm_cycles_start s \<and> fm_cycles_ratio s' = fm_cycles_ratio s
       \<and> fm_last s' = fm_last s \<and> blips s' = blips s \<and> YM_Reset s' = YM_Reset s
       \<and> YM_Update s' = YM_Update s \<and> YM_Write s' = YM_Write s \<and> YM_Read s' = YM_Read s
       \<and> length (fm_buffer s') = length (fm_buffer s)"
proof (cases "fm_cycles_count s < cycles")
  case False
  with assms show ?thesis by (simp add: fm_update_def)
next
  case True
  with assms obtain vals s1 where
    c: "call_YM_Update E (sint (fm_samples cycles s)) s = Inr (vals, s1)"
    by (auto simp: fm_update_def Let_def split: if_splits sum.splits)
  from call_YM_Update_fields [OF c] have f: "sched s1 = sched s" by simp
  show ?thesis
    using assms True c f
    by (auto simp: fm_update_def Let_def sched_def length_buffer_write
        split: if_splits option.splits)
qed

lemma sound_update_frame_mix:
  "sound_update E c cycles s =
     (case frame_mix E c cycles s of
        Inl e \<Rightarrow> Inl e
      | Inr (ds, s2) \<Rightarrow>
          (let calls = blips s2
                 @ map (if config_hq_fm c \<noteq> 0 then band_limited else linear) ds
                 @ [Blip_end_frame cycles]
           in Inr (blip_samples_avail E calls, s2\<lparr>blips := calls\<rparr>)))"
  by (simp add: sound_update_def frame_mix_def flush_hq_deltas flush_fast_deltas Let_def
      split: sum.splits prod.splits)

lemma frame_mix_residual:
  assumes "frame_mix E c cycles s = Inr (ds, s')" and "fm_cycles_start s < cycles"
  shows "unat (fm_cycles_start s') < unat (fm_cycles_ratio s)
       \<and> fm_cycles_count s' = fm_cycles_start s'
       \<and> fm_cycles_ratio s' = fm_cycles_ratio s"
proof -
  from assms(1) obtain s1 t p where
    u: "fm_update E cycles (s\<lparr>psg := psg_end_frame E cycles (psg s)\<rparr>) = Inr s1" and
    f: "flush_deltas (fm_buffer s1) (config_fm_preamp c) (fm_cycles_ratio s1) cycles
          (fm_cycles_start s1) (fm_last s1) = Inr (ds, t, p)" and
    s': "s' = s1\<lparr>fm_ptr := Some 0, fm_last := p, fm_cycles_start := t - cycles,
                  fm_cycles_count := t - cycles\<rparr>"
    by (auto simp: frame_mix_def split: sum.splits)
  from fm_update_sched [OF u] have
    e: "fm_cycles_start s1 = fm_cycles_start s" "fm_cycles_ratio s1 = fm_cycles_ratio s"
    by simp_all
  from flush_deltas_residual [OF f] assms(2) e
  have "unat (t - cycles) < unat (fm_cycles_ratio s)" by simp
  then show ?thesis by (simp add: s' e)
qed

subsection \<open>Two short frames of the Mega Drive\<close>

lemma replicate_numeral: "replicate (numeral k) x = x # replicate (pred_numeral k) x"
  by (simp add: numeral_eq_Suc)

lemma interleave_2: "interleave f 2 = [fst (f 0), snd (f 0), fst (f 1), snd (f 1)]"
  by (simp add: interleave_def upt_rec)

lemma interleave_1: "interleave f (Suc 0) = [fst (f 0), snd (f 0)]"
  by (simp add: interleave_def)

lemma cdiv_simps: "cdiv 0 100 = 0" "cdiv 100 100 = 1" "cdiv 10000 100 = 100"
  by (simp_all add: cdiv_def signed_divide_int_def)

lemma md_env_simps:
  "config_fm_preamp md_env = 100" "config_hq_fm md_env = 1"
  by (simp_all add: md_env_def)

lemma interleave_2':
  "interleave f (Suc (Suc 0)) = [fst (f 0), snd (f 0), fst (f 1), snd (f 1)]"
  by (simp add: interleave_def)

lemma md_frame1_reached:
  "sound_update (test_chip ramp) md_env 1500 md_start = Inr (0, md_frame1)"
  by (simp add: sound_update_frame_mix frame_mix_def fm_update_def fm_samples_def
      call_YM_Update_def interleave_2 interleave_2' buffer_write_def ramp_def md_frame1_def
      md_start_def md_env_simps cdiv_simps band_limited_def test_chip_def)

lemma md_frame2_short:
  "sound_update (test_chip ramp) md_env 500 md_frame1 =
     Inr (0, md_frame1\<lparr>fm_last := (0, 0), fm_cycles_start := 1024, fm_cycles_count := 1024,
            blips := blips md_frame1 @ [Blip_add_delta 516 (- 1) (- 1), Blip_end_frame 500]\<rparr>)"
  by (simp add: sound_update_frame_mix frame_mix_def fm_update_def md_frame1_def md_start_def
      md_env_simps cdiv_simps band_limited_def test_chip_def)

lemma md_frame2_full:
  "sound_update (test_chip ramp) md_env 1500 md_frame1 =
     Inr (0, md_frame1\<lparr>fm_buffer := [0, 0, 1, 1] @ replicate 2156 0,
            fm_last := (0, 0), fm_cycles_start := 24, fm_cycles_count := 24,
            blips := blips md_frame1 @ [Blip_add_delta 516 (- 1) (- 1), Blip_end_frame 1500]\<rparr>)"
  by (simp add: sound_update_frame_mix frame_mix_def fm_update_def fm_samples_def
      call_YM_Update_def interleave_1 buffer_write_def ramp_def md_frame1_def md_start_def
      md_env_simps cdiv_simps band_limited_def test_chip_def)

lemma flush_deltas_once:
  assumes "cycles \<le> time" "unat time + unat ratio < 2 ^ 32"
  shows "flush_deltas (x # y # rest) preamp ratio cycles time prev =
     Inr ([(time, cdiv (x * preamp) 100 - fst prev, cdiv (y * preamp) 100 - snd prev)],
          time + ratio, (cdiv (x * preamp) 100, cdiv (y * preamp) 100))"
proof -
  have "unat (time + ratio) = unat time + unat ratio"
    using unat_add_cases [of time ratio] assms(2) by linarith
  moreover have "unat cycles \<le> unat time"
    using assms(1) by (simp add: word_le_nat_alt)
  ultimately have "unat cycles \<le> unat (time + ratio)" by linarith
  then have "\<not> time + ratio < cycles"
    by (simp add: word_less_nat_alt)
  then show ?thesis by (simp add: Let_def)
qed

lemma flush_deltas_Inr_buffer:
  "flush_deltas buf preamp ratio cycles time prev = Inr res \<Longrightarrow> \<exists>x y rest. buf = x # y # rest"
  by (cases buf rule: remdups_adj.cases) auto

lemma frame_mix_once:
  assumes le: "cycles \<le> fm_cycles_start s" and nowrap:
    "unat (fm_cycles_start s) + unat (fm_cycles_ratio s) < 2 ^ 32"
    and f: "frame_mix E c cycles s = Inr (ds, s')"
  shows "fm_cycles_start s' = fm_cycles_start s + fm_cycles_ratio s - cycles"
proof -
  from f obtain s1 t p where
    u: "fm_update E cycles (s\<lparr>psg := psg_end_frame E cycles (psg s)\<rparr>) = Inr s1" and
    fl: "flush_deltas (fm_buffer s1) (config_fm_preamp c) (fm_cycles_ratio s1) cycles
          (fm_cycles_start s1) (fm_last s1) = Inr (ds, t, p)" and
    s': "s' = s1\<lparr>fm_ptr := Some 0, fm_last := p, fm_cycles_start := t - cycles,
                  fm_cycles_count := t - cycles\<rparr>"
    by (auto simp: frame_mix_def split: sum.splits)
  from fm_update_sched [OF u] have
    e: "fm_cycles_start s1 = fm_cycles_start s" "fm_cycles_ratio s1 = fm_cycles_ratio s"
    by simp_all
  from fl obtain x y rest where b: "fm_buffer s1 = x # y # rest"
    using flush_deltas_Inr_buffer by blast
  from fl have "t = fm_cycles_start s + fm_cycles_ratio s"
    using flush_deltas_once [OF le nowrap, of x y rest "config_fm_preamp c" "fm_last s1"]
    by (simp add: b e)
  then show ?thesis by (simp add: s')
qed

subsection \<open>The residual carried into the next frame\<close>

text \<open>
  Claim C7. Whenever \<open>sound_update(cycles)\<close> returns: if it was entered with
  \<open>fm_cycles_start\<close> below \<open>cycles\<close>, the residual it stores lies in the half-open
  interval from 0 to \<open>fm_cycles_ratio\<close>; so a stored residual that reaches the ratio
  means it was entered with \<open>fm_cycles_start\<close> at or above \<open>cycles\<close>, and there
  (unless the timestamp wraps around) the loop still runs once and the residual is
  \<open>fm_cycles_start + fm_cycles_ratio - cycles\<close>; the same value is stored in both
  counters.
\<close>

theorem sound_update_residual:
  assumes "sound_update E c cycles s = Inr (n, s')"
  shows "(fm_cycles_start s < cycles \<longrightarrow>
            unat (fm_cycles_start s') < unat (fm_cycles_ratio s))
       \<and> (unat (fm_cycles_ratio s) \<le> unat (fm_cycles_start s') \<longrightarrow>
            cycles \<le> fm_cycles_start s)
       \<and> (cycles \<le> fm_cycles_start s
            \<and> unat (fm_cycles_start s) + unat (fm_cycles_ratio s) < 2 ^ 32 \<longrightarrow>
            fm_cycles_start s' = fm_cycles_start s + fm_cycles_ratio s - cycles)
       \<and> fm_cycles_count s' = fm_cycles_start s'"
proof -
  from assms obtain ds s2 where
    f: "frame_mix E c cycles s = Inr (ds, s2)" and
    s': "s' = s2\<lparr>blips := blips s2
            @ map (if config_hq_fm c \<noteq> 0 then band_limited else linear) ds
            @ [Blip_end_frame cycles]\<rparr>"
    by (auto simp: sound_update_frame_mix Let_def split: sum.splits)
  have e: "fm_cycles_start s' = fm_cycles_start s2" "fm_cycles_count s' = fm_cycles_count s2"
    by (simp_all add: s')
  have a: "fm_cycles_start s < cycles \<longrightarrow>
             unat (fm_cycles_start s') < unat (fm_cycles_ratio s)"
    using frame_mix_residual [OF f] by (simp add: e)
  have b: "cycles \<le> fm_cycles_start s
            \<and> unat (fm_cycles_start s) + unat (fm_cycles_ratio s) < 2 ^ 32 \<longrightarrow>
            fm_cycles_start s' = fm_cycles_start s + fm_cycles_ratio s - cycles"
    using frame_mix_once [OF _ _ f] by (simp add: e)
  have d: "fm_cycles_count s' = fm_cycles_start s'"
    using f by (auto simp: e frame_mix_def split: sum.splits)
  from a have "unat (fm_cycles_ratio s) \<le> unat (fm_cycles_start s') \<longrightarrow>
            cycles \<le> fm_cycles_start s"
    by (metis linorder_not_less)
  with a b d show ?thesis by blast
qed

text \<open>
  The first frame of the Mega Drive fixture: entered with a frame start of 0 below
  1500 cycles, it stores the residual 516, below the ratio 1008.
\<close>

theorem sound_update_residual_witness:
  "sound_update (test_chip ramp) md_env 1500 md_start = Inr (0, md_frame1)
   \<and> fm_cycles_start md_start < 1500
   \<and> unat (fm_cycles_start md_frame1) < unat (fm_cycles_ratio md_start)
   \<and> fm_cycles_start md_frame1 = 516
   \<and> fm_cycles_count md_frame1 = 516"
  using sound_update_residual [OF md_frame1_reached]
  by (simp add: md_frame1_reached md_start_simps) (simp add: md_frame1_def)

subsection \<open>The two mixing modes\<close>

text \<open>
  Claim C8. \<open>sound_update\<close> is the mode-free frame mixer \<open>frame_mix\<close>, which computes
  the amplified values, the deltas, the timestamps, the carry state and the counters
  without looking at \<open>config.hq_fm\<close>, followed by handing every delta to one entry
  point of the resampler: \<open>blip_add_delta\<close> when the flag is set,
  \<open>blip_add_delta_fast\<close> when it is not. So both modes submit the same deltas at the
  same timestamps and leave the same carry state and counters.
\<close>

theorem sound_update_modes:
  "sound_update E c cycles s =
     (case frame_mix E c cycles s of
        Inl e \<Rightarrow> Inl e
      | Inr (ds, s2) \<Rightarrow>
          (let calls = blips s2
                 @ map (if config_hq_fm c \<noteq> 0 then band_limited else linear) ds
                 @ [Blip_end_frame cycles]
           in Inr (blip_samples_avail E calls, s2\<lparr>blips := calls\<rparr>)))
   \<and> frame_mix E (c\<lparr>config_hq_fm := h\<rparr>) cycles s = frame_mix E c cycles s"
  by (simp add: sound_update_frame_mix) (simp add: frame_mix_def cong: sum.case_cong)

subsection \<open>The scenario of one frame of 50000 cycles\<close>

lemma interleave_const: "interleave (\<lambda>i. (a, a)) n = replicate (2 * n) a"
proof (induction n)
  case 0
  show ?case by (simp add: interleave_def)
next
  case (Suc n)
  have "interleave (\<lambda>i. (a, a)) (Suc n) = interleave (\<lambda>i. (a, a)) n @ [a, a]"
    by (simp add: interleave_def)
  also have "\<dots> = replicate (2 * n) a @ replicate 2 a"
    by (simp add: Suc.IH numeral_2_eq_2)
  also have "\<dots> = replicate (2 * Suc n) a"
    by (simp add: replicate_add [symmetric])
  finally show ?case .
qed

lemma fm_update_50000:
  "fm_update (test_chip (\<lambda>i. (100, 100))) 50000 md_start =
     Inr (md_start\<lparr>fm_buffer := replicate 100 100 @ replicate 2060 0,
            fm_ptr := Some 100, fm_cycles_count := 50400\<rparr>)"
  by (simp add: fm_update_def fm_samples_def call_YM_Update_def test_chip_def
      interleave_const buffer_write_def md_start_def)

lemma flush_deltas_50000:
  "flush_deltas (replicate 100 100 @ replicate 2060 0) 100 1008 50000 0 (0, 0) =
     Inr ((0, 100, 100) # map (\<lambda>i. (of_nat i * 1008, 0, 0)) [1..<50], 50400, (100, 100))"
  by (simp add: cdiv_simps replicate_numeral upt_rec Let_def)

lemma frame_mix_50000:
  "frame_mix (test_chip (\<lambda>i. (100, 100))) (md_env\<lparr>config_hq_fm := h\<rparr>) 50000 md_start =
     Inr ((0, 100, 100) # map (\<lambda>i. (of_nat i * 1008, 0, 0)) [1..<50],
          md_start\<lparr>fm_buffer := replicate 100 100 @ replicate 2060 0,
            fm_last := (100, 100), fm_cycles_start := 400, fm_cycles_count := 400\<rparr>)"
proof -
  have p: "md_start\<lparr>psg := psg_end_frame (test_chip (\<lambda>i. (100, 100))) 50000 (psg md_start)\<rparr>
            = md_start"
    by (simp add: md_start_def)
  show ?thesis
    unfolding frame_mix_def p fm_update_50000
    by (simp add: md_start_simps md_env_def flush_deltas_50000)
qed

text \<open>
  Claim C5. The Mega Drive fixture (ratio 1008, all counters zero, amplification 100
  percent) with a chip that writes 100 on both channels of every sample, and one call
  \<open>sound_update(50000)\<close>: 50 samples are owed and asked for, and 50 pairs are written;
  the first delta submitted is 100 on both channels at timestamp 0, the 49 others are
  0 at the timestamps 1008, 2016, ...; the frame start stored for the next frame is
  \<open>50 * 1008 - 50000 = 400\<close>. This holds in both mixing modes.
\<close>

theorem frame_50000_scenario:
  "owed 50000 0 1008 = 50
   \<and> fm_request 50000 md_start = 50
   \<and> fm_update (test_chip (\<lambda>i. (100, 100))) 50000 md_start =
       Inr (md_start\<lparr>fm_buffer := replicate 100 100 @ replicate 2060 0,
              fm_ptr := Some 100, fm_cycles_count := 50400\<rparr>)
   \<and> sound_update (test_chip (\<lambda>i. (100, 100))) md_env 50000 md_start =
       Inr (0, md_start\<lparr>fm_buffer := replicate 100 100 @ replicate 2060 0,
              fm_last := (100, 100), fm_cycles_start := 400, fm_cycles_count := 400,
              blips := Blip_add_delta 0 100 100
                # map (\<lambda>i. Blip_add_delta (of_nat i * 1008) 0 0) [1..<50]
                @ [Blip_end_frame 50000]\<rparr>)
   \<and> sound_update (test_chip (\<lambda>i. (100, 100))) (md_env\<lparr>config_hq_fm := 0\<rparr>) 50000 md_start =
       Inr (0, md_start\<lparr>fm_buffer := replicate 100 100 @ replicate 2060 0,
              fm_last := (100, 100), fm_cycles_start := 400, fm_cycles_count := 400,
              blips := Blip_add_delta_fast 0 100 100
                # map (\<lambda>i. Blip_add_delta_fast (of_nat i * 1008) 0 0) [1..<50]
                @ [Blip_end_frame 50000]\<rparr>)"
proof -
  have a: "owed 50000 0 1008 = 50" by (simp add: owed_eq)
  have b: "fm_request 50000 md_start = 50"
    by (simp add: fm_request_def fm_samples_def md_start_simps)
  have h: "md_env = md_env\<lparr>config_hq_fm := 1\<rparr>" by (simp add: md_env_def)
  have c: "sound_update (test_chip (\<lambda>i. (100, 100))) md_env 50000 md_start =
       Inr (0, md_start\<lparr>fm_buffer := replicate 100 100 @ replicate 2060 0,
              fm_last := (100, 100), fm_cycles_start := 400, fm_cycles_count := 400,
              blips := Blip_add_delta 0 100 100
                # map (\<lambda>i. Blip_add_delta (of_nat i * 1008) 0 0) [1..<50]
                @ [Blip_end_frame 50000]\<rparr>)"
    apply (subst h)
    apply (simp only: sound_update_frame_mix frame_mix_50000)
    apply (simp add: md_start_simps band_limited_def test_chip_def comp_def)
    done
  have d: "sound_update (test_chip (\<lambda>i. (100, 100))) (md_env\<lparr>config_hq_fm := 0\<rparr>) 50000 md_start =
       Inr (0, md_start\<lparr>fm_buffer := replicate 100 100 @ replicate 2060 0,
              fm_last := (100, 100), fm_cycles_start := 400, fm_cycles_count := 400,
              blips := Blip_add_delta_fast 0 100 100
                # map (\<lambda>i. Blip_add_delta_fast (of_nat i * 1008) 0 0) [1..<50]
                @ [Blip_end_frame 50000]\<rparr>)"
    apply (simp only: sound_update_frame_mix frame_mix_50000)
    apply (simp add: md_start_simps linear_def test_chip_def comp_def)
    done
  from a b c d fm_update_50000 show ?thesis by blast
qed

subsection \<open>The counters\<close>

lemma fm_update_taken:
  assumes "fm_update E cycles s = Inr s'" and "fm_cycles_count s < cycles"
  shows "fm_cycles_ratio s \<noteq> 0
       \<and> fm_cycles_count s' = fm_cycles_count s + fm_samples cycles s * fm_cycles_ratio s
       \<and> (\<forall>p. fm_ptr s = Some p \<longrightarrow>
             fm_ptr s' = Some (p + unat (push_bit 1 (fm_samples cycles s)))
             \<and> p + unat (push_bit 1 (fm_samples cycles s)) \<le> length (fm_buffer s))"
proof -
  from assms obtain vals s1 where
    c: "call_YM_Update E (sint (fm_samples cycles s)) s = Inr (vals, s1)"
    by (auto simp: fm_update_def Let_def split: if_splits sum.splits)
  from call_YM_Update_fields [OF c] have f: "sched s1 = sched s" by simp
  show ?thesis
    using assms c f
    by (auto simp: fm_update_def Let_def sched_def split: if_splits option.splits)
qed

lemma unat_div_small:
  fixes a r :: "32 word"
  assumes "2 \<le> unat r"
  shows "unat (a div r) < 2 ^ 31"
proof -
  have "unat (a div r) = unat a div unat r" by (simp add: unat_div)
  also have "\<dots> \<le> unat a div 2"
    using assms by (intro div_le_mono2) simp_all
  finally have "unat (a div r) \<le> unat a div 2" .
  moreover have ua: "unat a < 2 ^ 32" using unsigned_less [of a] by simp
  have "unat a div 2 < 2 ^ 31"
    by (rule less_mult_imp_div_less) (use ua in simp)
  ultimately show ?thesis by (rule le_less_trans)
qed

lemma len32: "LENGTH(32) = 32"
  by simp

lemma fm_update_count_nowrap:
  assumes u: "fm_update E cycles s = Inr s'" and lt: "fm_cycles_count s < cycles"
    and b: "unat cycles + unat (fm_cycles_ratio s) \<le> 2 ^ 32"
  shows "unat (fm_cycles_count s') =
           unat (fm_cycles_count s)
           + owed (unat cycles) (unat (fm_cycles_count s)) (unat (fm_cycles_ratio s))
             * unat (fm_cycles_ratio s)
       \<and> unat cycles \<le> unat (fm_cycles_count s')
       \<and> unat (fm_samples cycles s) =
           owed (unat cycles) (unat (fm_cycles_count s)) (unat (fm_cycles_ratio s))"
proof -
  let ?c = "unat (fm_cycles_count s)" and ?r = "unat (fm_cycles_ratio s)"
  let ?x = "unat cycles - ?c"
  let ?n = "(?x + ?r - 1) div ?r"
  from fm_update_taken [OF u lt] have r0: "fm_cycles_ratio s \<noteq> 0"
    and cnt: "fm_cycles_count s' = fm_cycles_count s + fm_samples cycles s * fm_cycles_ratio s"
    by simp_all
  have rpos: "0 < ?r" using r0 by (simp add: unat_gt_0)
  have le: "?c < unat cycles" using lt by (simp add: word_less_nat_alt)
  have nowrap: "unat cycles - ?c + ?r - 1 < 2 ^ 32" using b rpos by linarith
  have n: "unat (fm_samples cycles s) = ?n"
    using fm_samples_unat [OF lt r0 nowrap] .
  have o: "owed (unat cycles) ?c ?r = ?n"
    using owed_eq [of ?c "unat cycles" ?r] le rpos by simp
  have up: "?n * ?r \<le> ?x + ?r - 1" by simp
  have lo: "?x \<le> ?n * ?r"
  proof -
    have "?x + ?r - 1 < (?n + 1) * ?r"
      using rpos by (metis Suc_eq_plus1 dividend_less_div_times mult.commute mult_Suc)
    then show ?thesis by simp
  qed
  have m: "unat (fm_samples cycles s * fm_cycles_ratio s) = ?n * ?r"
  proof -
    have "?n * ?r < 2 ^ 32" using up nowrap by linarith
    then have "unat (fm_samples cycles s) * ?r < 2 ^ LENGTH(32)"
      by (simp only: n len32)
    then have "unat (fm_samples cycles s * fm_cycles_ratio s) = unat (fm_samples cycles s) * ?r"
      by (rule unat_mult_lem [THEN iffD1])
    then show ?thesis by (simp only: n)
  qed
  have a: "unat (fm_cycles_count s') = ?c + ?n * ?r"
  proof -
    have "?c + ?n * ?r < 2 ^ 32" using up b le rpos by linarith
    then have "?c + unat (fm_samples cycles s * fm_cycles_ratio s) < 2 ^ LENGTH(32)"
      by (simp only: m len32)
    then have "unat (fm_cycles_count s + fm_samples cycles s * fm_cycles_ratio s) =
        ?c + unat (fm_samples cycles s * fm_cycles_ratio s)"
      by (rule unat_add_lem [THEN iffD1])
    then show ?thesis by (simp only: cnt m)
  qed
  show ?thesis using a o n lo le by simp
qed

lemma call_YM_Write_sched: "call_YM_Write E a v s = Inr s' \<Longrightarrow> sched s' = sched s"
  by (auto simp: call_YM_Write_def YM3438_Write_def sched_def
      split: option.splits write_fn.splits)

lemma call_YM_Read_sched: "call_YM_Read E a s = Inr (v, s') \<Longrightarrow> sched s' = sched s"
  by (auto simp: call_YM_Read_def YM3438_Read_def sched_def
      split: option.splits read_fn.splits prod.splits)

lemma call_YM_Reset_sched: "call_YM_Reset E s = Inr s' \<Longrightarrow> sched s' = sched s"
  by (auto simp: call_YM_Reset_def YM3438_Reset_def sched_def
      split: option.splits reset_fn.splits)

lemma fm_update_counters:
  assumes "fm_update E cycles s = Inr s'"
  shows "fm_cycles_start s' = fm_cycles_start s
       \<and> (unat cycles + unat (fm_cycles_ratio s) \<le> 2 ^ 32 \<longrightarrow>
            fm_cycles_count s \<le> fm_cycles_count s')"
proof (cases "fm_cycles_count s < cycles")
  case False
  with assms show ?thesis by (simp add: fm_update_def)
next
  case True
  show ?thesis
    using fm_update_sched [OF assms] fm_update_count_nowrap [OF assms True]
    by (simp add: word_le_nat_alt)
qed

lemma fm_update_1500:
  "fm_update (test_chip ramp) 1500 md_start =
     Inr (md_start\<lparr>fm_buffer := [0, 0, 1, 1] @ replicate 2156 0,
            fm_ptr := Some 4, fm_cycles_count := 2016\<rparr>)"
  by (simp add: fm_update_def fm_samples_def call_YM_Update_def test_chip_def
      interleave_2 interleave_2' buffer_write_def ramp_def md_start_def)

text \<open>
  Claim C10, as amended. Between two frames the register-access path never moves the
  frame start and never lowers the produced-through counter: \<open>fm_update\<close>, \<open>fm_write\<close>
  and \<open>fm_read\<close> leave \<open>fm_cycles_start\<close> as it is, and \<open>fm_cycles_count\<close> does not
  decrease as long as \<open>cycles + fm_cycles_ratio\<close> does not exceed \<open>2 ^ 32\<close>. At the end of
  a frame \<open>sound_update\<close> sets both counters to the residual, which lies below the
  ratio when the frame was entered with \<open>fm_cycles_start\<close> below \<open>cycles\<close>; that value
  is in general smaller than the counters were.
\<close>

theorem counters_within_frame:
  "(fm_update E cycles s = Inr s' \<longrightarrow>
      fm_cycles_start s' = fm_cycles_start s
      \<and> (unat cycles + unat (fm_cycles_ratio s) \<le> 2 ^ 32 \<longrightarrow>
           fm_cycles_count s \<le> fm_cycles_count s'))
   \<and> (fm_write E cycles address data s = Inr s' \<longrightarrow>
      fm_cycles_start s' = fm_cycles_start s
      \<and> (unat cycles + unat (fm_cycles_ratio s) \<le> 2 ^ 32 \<longrightarrow>
           fm_cycles_count s \<le> fm_cycles_count s'))
   \<and> (fm_read E cycles address s = Inr (v, s') \<longrightarrow>
      fm_cycles_start s' = fm_cycles_start s
      \<and> (unat cycles + unat (fm_cycles_ratio s) \<le> 2 ^ 32 \<longrightarrow>
           fm_cycles_count s \<le> fm_cycles_count s'))
   \<and> (sound_update E c cycles s = Inr (n, s') \<longrightarrow>
      fm_cycles_count s' = fm_cycles_start s'
      \<and> (fm_cycles_start s < cycles \<longrightarrow>
           unat (fm_cycles_start s') < unat (fm_cycles_ratio s)))"
proof (intro conjI impI)
  assume "fm_update E cycles s = Inr s'"
  from fm_update_counters [OF this]
  show "fm_cycles_start s' = fm_cycles_start s"
    and "unat cycles + unat (fm_cycles_ratio s) \<le> 2 ^ 32 \<Longrightarrow>
           fm_cycles_count s \<le> fm_cycles_count s'"
    by simp_all
next
  assume w: "fm_write E cycles address data s = Inr s'"
  then obtain s1 where u: "fm_update E cycles s = Inr s1"
    and c: "call_YM_Write E address data s1 = Inr s'"
    by (auto simp: fm_write_def split: sum.splits)
  from call_YM_Write_sched [OF c] have
    e: "fm_cycles_start s' = fm_cycles_start s1" "fm_cycles_count s' = fm_cycles_count s1"
    by (simp_all add: sched_def)
  from fm_update_counters [OF u] e
  show "fm_cycles_start s' = fm_cycles_start s"
    and "unat cycles + unat (fm_cycles_ratio s) \<le> 2 ^ 32 \<Longrightarrow>
           fm_cycles_count s \<le> fm_cycles_count s'"
    by simp_all
next
  assume w: "fm_read E cycles address s = Inr (v, s')"
  then obtain s1 where u: "fm_update E cycles s = Inr s1"
    and c: "call_YM_Read E address s1 = Inr (v, s')"
    by (auto simp: fm_read_def split: sum.splits)
  from call_YM_Read_sched [OF c] have
    e: "fm_cycles_start s' = fm_cycles_start s1" "fm_cycles_count s' = fm_cycles_count s1"
    by (simp_all add: sched_def)
  from fm_update_counters [OF u] e
  show "fm_cycles_start s' = fm_cycles_start s"
    and "unat cycles + unat (fm_cycles_ratio s) \<le> 2 ^ 32 \<Longrightarrow>
           fm_cycles_count s \<le> fm_cycles_count s'"
    by simp_all
next
  assume "sound_update E c cycles s = Inr (n, s')"
  then obtain ds s2 where
    f: "frame_mix E c cycles s = Inr (ds, s2)" and
    s': "s' = s2\<lparr>blips := blips s2
            @ map (if config_hq_fm c \<noteq> 0 then band_limited else linear) ds
            @ [Blip_end_frame cycles]\<rparr>"
    by (auto simp: sound_update_frame_mix Let_def split: sum.splits)
  show "fm_cycles_count s' = fm_cycles_start s'"
    using f by (auto simp: s' frame_mix_def split: sum.splits)
  show "fm_cycles_start s < cycles \<Longrightarrow>
          unat (fm_cycles_start s') < unat (fm_cycles_ratio s)"
    using frame_mix_residual [OF f] by (simp add: s')
qed

text \<open>
  The amended claim on the Mega Drive fixture: \<open>fm_update(1500)\<close> raises the
  produced-through counter from 0 to 2016, and the frame of 1500 cycles ends with both
  counters equal.
\<close>

theorem counters_within_frame_witness:
  "fm_update (test_chip ramp) 1500 md_start =
     Inr (md_start\<lparr>fm_buffer := [0, 0, 1, 1] @ replicate 2156 0,
            fm_ptr := Some 4, fm_cycles_count := 2016\<rparr>)
   \<and> unat (1500 :: uint32) + unat (fm_cycles_ratio md_start) \<le> 2 ^ 32
   \<and> fm_cycles_count md_start \<le> 2016
   \<and> sound_update (test_chip ramp) md_env 1500 md_start = Inr (0, md_frame1)
   \<and> fm_cycles_count md_frame1 = fm_cycles_start md_frame1"
  using counters_within_frame [of "test_chip ramp" 1500 md_start
      "md_start\<lparr>fm_buffer := [0, 0, 1, 1] @ replicate 2156 0,
            fm_ptr := Some 4, fm_cycles_count := 2016\<rparr>" 0 0 0 md_env 0]
    counters_within_frame [of "test_chip ramp" 1500 md_start md_frame1 0 0 0 md_env 0]
  by (simp add: fm_update_1500 md_frame1_reached md_start_simps)

text \<open>
  Claim C10 as it is stated fails: two frames of 1500 cycles after the reset, the
  second \<open>sound_update\<close> lowers both counters from 516 to 24.
\<close>

theorem counters_within_frame_counterexample:
  "sound_update (test_chip ramp) md_env 1500 md_start = Inr (0, md_frame1)
   \<and> sound_update (test_chip ramp) md_env 1500 md_frame1 =
       Inr (0, md_frame1\<lparr>fm_buffer := [0, 0, 1, 1] @ replicate 2156 0,
              fm_last := (0, 0), fm_cycles_start := 24, fm_cycles_count := 24,
              blips := blips md_frame1
                @ [Blip_add_delta 516 (- 1) (- 1), Blip_end_frame 1500]\<rparr>)
   \<and> fm_cycles_start md_frame1 = 516
   \<and> fm_cycles_count md_frame1 = 516
   \<and> (24 :: uint32) < 516"
  by (simp add: md_frame1_reached md_frame2_full) (simp add: md_frame1_def)

subsection \<open>A frame that needs no new sample\<close>

text \<open>
  Claim C4, as amended. When \<open>sound_update(cycles)\<close> is called with an empty buffer
  (\<open>fm_ptr\<close> at the start and \<open>fm_cycles_count = fm_cycles_start\<close>), with \<open>cycles\<close> not
  above \<open>fm_cycles_count\<close>, with \<open>fm_cycles_start + fm_cycles_ratio\<close> below \<open>2 ^ 32\<close>
  (the timestamp does not wrap around) and with a buffer of at least two entries, no
  sample is generated, but the body of the \<open>do ... while\<close> loop still runs, exactly
  once: one delta is submitted at the timestamp \<open>fm_cycles_start\<close>, computed from the
  two values that lie at the start of \<open>fm_buffer\<close>, amplified, minus the carry state;
  the carry state becomes those amplified values; the buffer pointer is reset and both
  counters become \<open>fm_cycles_start + fm_cycles_ratio - cycles\<close>.
\<close>

theorem sound_update_empty_buffer:
  assumes empty: "fm_ptr s = Some 0"
    and eq: "fm_cycles_count s = fm_cycles_start s"
    and le: "cycles \<le> fm_cycles_count s"
    and nowrap: "unat (fm_cycles_start s) + unat (fm_cycles_ratio s) < 2 ^ 32"
    and buf: "fm_buffer s = x # y # rest"
  shows "sound_update E c cycles s =
     (let l = cdiv (x * config_fm_preamp c) 100;
          r = cdiv (y * config_fm_preamp c) 100;
          d = (fm_cycles_start s, l - fst (fm_last s), r - snd (fm_last s));
          calls = blips s
            @ [if config_hq_fm c \<noteq> 0 then band_limited d else linear d,
               Blip_end_frame cycles]
      in Inr (blip_samples_avail E calls,
              s\<lparr>psg := psg_end_frame E cycles (psg s),
                fm_ptr := Some 0,
                fm_last := (l, r),
                fm_cycles_start := fm_cycles_start s + fm_cycles_ratio s - cycles,
                fm_cycles_count := fm_cycles_start s + fm_cycles_ratio s - cycles,
                blips := calls\<rparr>))"
proof -
  have u: "fm_update E cycles (s\<lparr>psg := psg_end_frame E cycles (psg s)\<rparr>) =
             Inr (s\<lparr>psg := psg_end_frame E cycles (psg s)\<rparr>)"
    using le by (simp add: fm_update_def leD)
  have le': "cycles \<le> fm_cycles_start s" using le eq by simp
  show ?thesis
    by (simp add: sound_update_frame_mix frame_mix_def u buf
        flush_deltas_once [OF le' nowrap] Let_def del: flush_deltas.simps)
qed

text \<open>
  The amended claim on the Mega Drive fixture after its first frame: a second frame of
  500 cycles, below the residual 516, submits the delta \<open>(-1, -1)\<close> at timestamp 516.
\<close>

theorem sound_update_empty_buffer_witness:
  "fm_ptr md_frame1 = Some 0
   \<and> fm_cycles_count md_frame1 = fm_cycles_start md_frame1
   \<and> 500 \<le> fm_cycles_count md_frame1
   \<and> sound_update (test_chip ramp) md_env 500 md_frame1 =
       Inr (0, md_frame1\<lparr>fm_last := (0, 0), fm_cycles_start := 1024,
              fm_cycles_count := 1024,
              blips := blips md_frame1
                @ [Blip_add_delta 516 (- 1) (- 1), Blip_end_frame 500]\<rparr>)"
proof -
  have a: "fm_ptr md_frame1 = Some 0" "fm_cycles_count md_frame1 = fm_cycles_start md_frame1"
    "500 \<le> fm_cycles_count md_frame1"
    "unat (fm_cycles_start md_frame1) + unat (fm_cycles_ratio md_frame1) < 2 ^ 32"
    "fm_buffer md_frame1 = 0 # 0 # ([1, 1] @ replicate 2156 0)"
    by (simp_all add: md_frame1_def md_start_def)
  from sound_update_empty_buffer [OF a, of "test_chip ramp" md_env]
  show ?thesis
    by (simp add: a md_env_simps cdiv_simps band_limited_def Let_def)
      (simp add: md_frame1_def md_start_def test_chip_def)
qed

text \<open>
  Claim C4 as it is stated fails there: the buffer is empty and no sample is asked
  for, yet a delta is submitted and the carry state changes from \<open>(1, 1)\<close> to
  \<open>(0, 0)\<close>, the stale first pair of the buffer.
\<close>

theorem sound_update_empty_buffer_counterexample:
  "sound_update (test_chip ramp) md_env 1500 md_start = Inr (0, md_frame1)
   \<and> fm_ptr md_frame1 = Some 0
   \<and> fm_request 500 md_frame1 = 0
   \<and> fm_last md_frame1 = (1, 1)
   \<and> sound_update (test_chip ramp) md_env 500 md_frame1 =
       Inr (0, md_frame1\<lparr>fm_last := (0, 0), fm_cycles_start := 1024,
              fm_cycles_count := 1024,
              blips := blips md_frame1
                @ [Blip_add_delta 516 (- 1) (- 1), Blip_end_frame 500]\<rparr>)"
  by (simp add: md_frame1_reached md_frame2_short)
    (simp add: md_frame1_def md_start_def fm_request_def)

subsection \<open>The invariant of a session\<close>

lemma session_inv_sched:
  "sched s' = sched s \<Longrightarrow> session_inv s \<Longrightarrow> session_inv s'"
  by (simp add: session_inv_def sched_def)

lemma fm_buffer_len_le: "fm_buffer_len hc \<le> fm_buffer_len True"
  by (simp add: fm_buffer_len_def)

lemma session_inv_reset:
  assumes len: "length (fm_buffer s0) = fm_buffer_len hc"
    and r: "sound_reset E c (sound_init E c s0) = Inr s"
  shows "session_inv s"
proof -
  let ?i = "sound_init E c s0"
  have i: "fm_buffer ?i = fm_buffer s0"
    "fm_cycles_ratio ?i = 42 \<or> fm_cycles_ratio ?i = 1008 \<or> fm_cycles_ratio ?i = 1080"
    by (simp_all add: sound_init_def Let_def)
  from r obtain s1 where c: "call_YM_Reset E ?i = Inr s1"
    and s: "s = s1\<lparr>psg := psg_config E 0 (config_psg_preamp c) 0xff (psg_reset E (psg s1)),
                 fm_last := (0, 0), fm_ptr := Some 0,
                 fm_cycles_start := 0, fm_cycles_count := 0\<rparr>"
    by (auto simp: sound_reset_def split: sum.splits)
  from call_YM_Reset_sched [OF c] have
    f: "fm_buffer s1 = fm_buffer ?i" "fm_cycles_ratio s1 = fm_cycles_ratio ?i"
    by (simp_all add: sched_def)
  have "2 \<le> unat (fm_cycles_ratio s) \<and> unat (fm_cycles_ratio s) \<le> 1080"
    using i(2) by (auto simp: s f)
  moreover have "length (fm_buffer s) \<le> fm_buffer_len True"
    using len fm_buffer_len_le [of hc] by (simp add: s f i)
  ultimately show ?thesis
    unfolding session_inv_def
    by (intro exI [of _ 0]) (simp add: s)
qed

lemma session_inv_fm_update:
  assumes inv: "session_inv s" and u: "fm_update E cycles s = Inr s'"
  shows "session_inv s'"
proof (cases "fm_cycles_count s < cycles")
  case False
  with u inv show ?thesis by (simp add: fm_update_def)
next
  case True
  from inv obtain p k where p: "fm_ptr s = Some p" and k: "2 * k \<le> p"
    and len: "length (fm_buffer s) \<le> fm_buffer_len True"
    and r: "2 \<le> unat (fm_cycles_ratio s)" "unat (fm_cycles_ratio s) \<le> 1080"
    and cnt: "fm_cycles_count s = fm_cycles_start s + of_nat k * fm_cycles_ratio s"
    by (auto simp: session_inv_def)
  let ?n = "fm_samples cycles s"
  have small: "unat ?n < 2 ^ 31"
    unfolding fm_samples_def using r(1) by (rule unat_div_small)
  have sh: "unat (push_bit 1 ?n) = 2 * unat ?n"
    using small by (rule unat_shift1)
  from fm_update_taken [OF u True] p sh have
    cnt': "fm_cycles_count s' = fm_cycles_count s + ?n * fm_cycles_ratio s"
    and p': "fm_ptr s' = Some (p + 2 * unat ?n)"
    and fit: "p + 2 * unat ?n \<le> length (fm_buffer s)"
    by simp_all
  from fm_update_sched [OF u] have
    e: "fm_cycles_start s' = fm_cycles_start s" "fm_cycles_ratio s' = fm_cycles_ratio s"
    "length (fm_buffer s') = length (fm_buffer s)"
    by simp_all
  have n: "of_nat (unat ?n) = ?n" by simp
  have "fm_cycles_count s' =
          fm_cycles_start s' + of_nat (k + unat ?n) * fm_cycles_ratio s'"
    by (simp add: cnt' cnt e n algebra_simps)
  moreover have "2 * (k + unat ?n) \<le> p + 2 * unat ?n" using k by simp
  ultimately show ?thesis
    unfolding session_inv_def
    using p' fit len r e
    by (intro exI [of _ "p + 2 * unat ?n"] exI [of _ "k + unat ?n"]) simp
qed

lemma session_inv_sound_update:
  assumes inv: "session_inv s" and u: "sound_update E c cycles s = Inr (n, s')"
  shows "session_inv s'"
proof -
  from u obtain ds s1 t p where
    f: "fm_update E cycles (s\<lparr>psg := psg_end_frame E cycles (psg s)\<rparr>) = Inr s1" and
    s': "s' = s1\<lparr>fm_ptr := Some 0, fm_last := p, fm_cycles_start := t - cycles,
                  fm_cycles_count := t - cycles,
                  blips := blips s1
                    @ map (if config_hq_fm c \<noteq> 0 then band_limited else linear) ds
                    @ [Blip_end_frame cycles]\<rparr>"
    by (auto simp: sound_update_frame_mix frame_mix_def Let_def split: sum.splits)
  from fm_update_sched [OF f] have
    e: "fm_cycles_ratio s1 = fm_cycles_ratio s" "length (fm_buffer s1) = length (fm_buffer s)"
    by simp_all
  from inv have "length (fm_buffer s) \<le> fm_buffer_len True"
    "2 \<le> unat (fm_cycles_ratio s)" "unat (fm_cycles_ratio s) \<le> 1080"
    by (auto simp: session_inv_def)
  then show ?thesis
    unfolding session_inv_def
    by (intro exI [of _ 0]) (simp add: s' e)
qed

lemma load_chip_sched: "load_chip E c state s = Inr (p, s') \<Longrightarrow> sched s' = sched s"
  by (auto simp: load_chip_def sched_def Let_def
      split: if_splits sum.splits prod.splits)

lemma session_inv_context_load:
  assumes inv: "session_inv s" and l: "sound_context_load E c state s = Inr (n, s')"
  shows "session_inv s'"
proof -
  from l obtain p s1 g w where
    c: "load_chip E c state s = Inr (p, s1)" and
    s': "s' = s1\<lparr>psg := g, fm_cycles_start := w, fm_cycles_count := w\<rparr>"
    by (auto simp: sound_context_load_def Let_def split: sum.splits prod.splits)
  from load_chip_sched [OF c] have
    e: "fm_ptr s1 = fm_ptr s" "fm_buffer s1 = fm_buffer s"
    "fm_cycles_ratio s1 = fm_cycles_ratio s"
    by (simp_all add: sched_def)
  from inv obtain q where "fm_ptr s = Some q" "q \<le> length (fm_buffer s)"
    "length (fm_buffer s) \<le> fm_buffer_len True"
    "2 \<le> unat (fm_cycles_ratio s)" "unat (fm_cycles_ratio s) \<le> 1080"
    by (auto simp: session_inv_def)
  then show ?thesis
    unfolding session_inv_def
    by (intro exI [of _ q] exI [of _ 0]) (simp add: s' e)
qed

lemma reachable_session_inv: "reachable E c s \<Longrightarrow> session_inv s"
proof (induction rule: reachable.induct)
  case (after_reset s0 s)
  then show ?case by (rule session_inv_reset)
next
  case (after_fm_update s cycles s')
  then show ?case by (auto intro: session_inv_fm_update)
next
  case (after_fm_reset s cycles s')
  from after_fm_reset.hyps(2) obtain s1 where u: "fm_update E cycles s = Inr s1"
    and r: "call_YM_Reset E s1 = Inr s'"
    by (auto simp: fm_reset_def split: sum.splits)
  from session_inv_fm_update [OF after_fm_reset.IH u] call_YM_Reset_sched [OF r]
  show ?case by (rule session_inv_sched [rotated])
next
  case (after_fm_write s cycles address data s')
  from after_fm_write.hyps(2) obtain s1 where u: "fm_update E cycles s = Inr s1"
    and r: "call_YM_Write E address data s1 = Inr s'"
    by (auto simp: fm_write_def split: sum.splits)
  from session_inv_fm_update [OF after_fm_write.IH u] call_YM_Write_sched [OF r]
  show ?case by (rule session_inv_sched [rotated])
next
  case (after_fm_read s cycles address v s')
  from after_fm_read.hyps(2) obtain s1 where u: "fm_update E cycles s = Inr s1"
    and r: "call_YM_Read E address s1 = Inr (v, s')"
    by (auto simp: fm_read_def split: sum.splits)
  from session_inv_fm_update [OF after_fm_read.IH u] call_YM_Read_sched [OF r]
  show ?case by (rule session_inv_sched [rotated])
next
  case (after_sound_update s cycles n s')
  then show ?case by (auto intro: session_inv_sound_update)
next
  case (after_context_load s state n s')
  then show ?case by (auto intro: session_inv_context_load)
qed

lemma session_inv_multiple:
  assumes "session_inv s"
  shows "\<exists>k. unat (fm_cycles_count s - fm_cycles_start s) = k * unat (fm_cycles_ratio s)
           \<and> (fm_cycles_start s \<le> fm_cycles_count s \<longrightarrow>
                unat (fm_cycles_count s) - unat (fm_cycles_start s)
                  = k * unat (fm_cycles_ratio s))"
proof -
  from assms obtain p k where k: "2 * k \<le> p" "p \<le> length (fm_buffer s)"
    "length (fm_buffer s) \<le> fm_buffer_len True"
    and r: "unat (fm_cycles_ratio s) \<le> 1080"
    and cnt: "fm_cycles_count s = fm_cycles_start s + of_nat k * fm_cycles_ratio s"
    by (auto simp: session_inv_def)
  have kb: "k \<le> 25920" using k by (simp add: fm_buffer_len_def)
  then have uk: "unat (of_nat k :: uint32) = k"
    by (simp add: unat_of_nat)
  have "k * unat (fm_cycles_ratio s) \<le> 25920 * 1080"
    using kb r by (rule mult_le_mono)
  then have "unat (of_nat k :: uint32) * unat (fm_cycles_ratio s) < 2 ^ LENGTH(32)"
    by (simp add: uk)
  then have "unat (of_nat k * fm_cycles_ratio s) = unat (of_nat k :: uint32) * unat (fm_cycles_ratio s)"
    by (rule unat_mult_lem [THEN iffD1])
  moreover have "fm_cycles_count s - fm_cycles_start s = of_nat k * fm_cycles_ratio s"
    by (simp add: cnt)
  ultimately have "unat (fm_cycles_count s - fm_cycles_start s)
      = k * unat (fm_cycles_ratio s)"
    using uk by simp
  then show ?thesis by (auto simp: unat_sub)
qed

text \<open>
  Claim C6, as amended. In every state that a session reaches from \<open>sound_reset\<close> by
  the operations \<open>fm_update\<close>, \<open>fm_reset\<close>, \<open>fm_write\<close>, \<open>fm_read\<close>, \<open>sound_update\<close> and
  \<open>sound_context_load\<close>, the difference \<open>fm_cycles_count - fm_cycles_start\<close>, taken
  modulo \<open>2 ^ 32\<close> as the \<open>uint32\<close> expression of the C program, is a natural number of
  times \<open>fm_cycles_ratio\<close>; where \<open>fm_cycles_count\<close> is not below \<open>fm_cycles_start\<close>
  this is the difference of the two numbers. (Where \<open>fm_cycles_count\<close> has wrapped
  around and lies below \<open>fm_cycles_start\<close>, the difference of the two numbers is
  negative.)
\<close>

theorem reachable_counter_difference:
  assumes "reachable E c s"
  shows "\<exists>k. unat (fm_cycles_count s - fm_cycles_start s) = k * unat (fm_cycles_ratio s)
           \<and> (fm_cycles_start s \<le> fm_cycles_count s \<longrightarrow>
                unat (fm_cycles_count s) - unat (fm_cycles_start s)
                  = k * unat (fm_cycles_ratio s))"
  using assms by (intro session_inv_multiple reachable_session_inv)

text \<open>
  A state of the Mega Drive fixture reached by \<open>fm_update(1500)\<close> after the reset: the
  difference is 2016, twice the ratio.
\<close>

theorem reachable_counter_difference_witness:
  "reachable (test_chip ramp) md_env
     (md_start\<lparr>fm_buffer := [0, 0, 1, 1] @ replicate 2156 0,
        fm_ptr := Some 4, fm_cycles_count := 2016\<rparr>)
   \<and> unat ((2016 :: uint32) - fm_cycles_start md_start) = 2 * unat (fm_cycles_ratio md_start)
   \<and> (\<exists>k. unat ((2016 :: uint32) - fm_cycles_start md_start)
            = k * unat (fm_cycles_ratio md_start))"
proof -
  have "length (fm_buffer (power_on False () () () ())) = fm_buffer_len (HAVE_YM3438_CORE md_env)"
    by (simp add: power_on_def md_env_def)
  then have "reachable (test_chip ramp) md_env md_start"
    using md_start_is_reset by (rule reachable.after_reset)
  then have r: "reachable (test_chip ramp) md_env
     (md_start\<lparr>fm_buffer := [0, 0, 1, 1] @ replicate 2156 0,
        fm_ptr := Some 4, fm_cycles_count := 2016\<rparr>)"
    using fm_update_1500 by (rule reachable.after_fm_update)
  from reachable_counter_difference [OF r] r show ?thesis
    by (auto simp: md_start_simps)
qed

subsection \<open>A sequence of targets\<close>

lemma owed_from_zero:
  assumes "0 < r"
  shows "owed x 0 r = (x + r - 1) div r"
  using owed_eq [of 0 x r] assms by simp

lemma owed_mono:
  assumes "0 < r" "x \<le> y"
  shows "owed x 0 r \<le> owed y 0 r"
  using assms by (simp add: owed_from_zero div_le_mono)

lemma owed_covers:
  assumes "0 < r"
  shows "x \<le> owed x 0 r * r" and "owed x 0 r * r \<le> x + r - 1"
proof -
  have "x + r - 1 < ((x + r - 1) div r + 1) * r"
    using assms by (metis Suc_eq_plus1 dividend_less_div_times mult.commute mult_Suc)
  then show "x \<le> owed x 0 r * r"
    using assms by (simp add: owed_from_zero)
  show "owed x 0 r * r \<le> x + r - 1"
    using assms by (simp add: owed_from_zero)
qed

lemma div_minus_multiple:
  fixes a k r :: nat
  assumes "0 < r" "k * r \<le> a"
  shows "(a - k * r) div r = a div r - k"
proof -
  have "a div r = ((a - k * r) + k * r) div r" using assms(2) by simp
  also have "\<dots> = k + (a - k * r) div r"
    using assms(1) by (simp only: div_mult_self1 [OF less_imp_neq [THEN not_sym]])
  finally show ?thesis by simp
qed

lemma div_multiple_plus:
  fixes k r :: nat
  assumes "0 < r"
  shows "(k * r + r - 1) div r = k"
proof -
  have "k * r + r - 1 = (r - 1) + k * r" using assms by simp
  also have "\<dots> div r = k + (r - 1) div r"
    using assms by (simp only: div_mult_self1 [OF less_imp_neq [THEN not_sym]])
  also have "(r - 1) div r = 0" using assms by simp
  finally show ?thesis by simp
qed

lemma owed_rest:
  assumes r: "0 < r" and lo: "lo \<le> x" and gt: "owed lo 0 r * r < x"
  shows "owed x (owed lo 0 r * r) r = owed x 0 r - owed lo 0 r"
proof -
  let ?k = "owed lo 0 r"
  have "owed x (?k * r) r = (x - ?k * r + r - 1) div r"
    using owed_eq [of "?k * r" x r] r gt by simp
  also have "x - ?k * r + r - 1 = (x + r - 1) - ?k * r"
    using gt by simp
  also have "\<dots> div r = (x + r - 1) div r - ?k"
    using r gt by (intro div_minus_multiple) simp_all
  finally show ?thesis using r by (simp add: owed_from_zero)
qed

lemma owed_same:
  assumes r: "0 < r" and lo: "lo \<le> x" and le: "x \<le> owed lo 0 r * r"
  shows "owed x 0 r = owed lo 0 r"
proof (rule antisym)
  show "owed lo 0 r \<le> owed x 0 r" using r lo by (rule owed_mono)
  have "(x + r - 1) div r \<le> (owed lo 0 r * r + r - 1) div r"
    using le by (intro div_le_mono) simp
  also have "\<dots> = owed lo 0 r"
    using r by (rule div_multiple_plus)
  finally show "owed x 0 r \<le> owed lo 0 r" using r by (simp add: owed_from_zero)
qed

lemma backend_ok_sched_update:
  "backend_ok (s\<lparr>fm_buffer := b, fm_ptr := p, fm_cycles_count := n\<rparr>) = backend_ok s"
  by (simp add: backend_ok_def accm_ok_def split: option.splits update_fn.splits)

lemma last_ge_head:
  assumes "sorted (x # ys)"
  shows "x \<le> last (x # ys)"
proof (cases ys)
  case Nil
  then show ?thesis by simp
next
  case (Cons y zs)
  then have "last (x # ys) \<in> set ys" by simp
  with assms show ?thesis by auto
qed

lemma fm_update_all_from:
  assumes r: "0 < r"
  shows "backend_ok s \<Longrightarrow> unat (fm_cycles_ratio s) = r
     \<Longrightarrow> length (fm_buffer s) = fm_buffer_len hc
     \<Longrightarrow> fm_ptr s = Some (2 * owed lo 0 r)
     \<Longrightarrow> unat (fm_cycles_count s) = owed lo 0 r * r
     \<Longrightarrow> sorted (lo # map unat cs)
     \<Longrightarrow> \<forall>c \<in> set cs. unat c + r \<le> 2 ^ 32
     \<Longrightarrow> 2 * owed (last (lo # map unat cs)) 0 r \<le> fm_buffer_len hc
     \<Longrightarrow> \<exists>s'. fm_update_all E cs s
                 = Inr (owed (last (lo # map unat cs)) 0 r - owed lo 0 r, s')
            \<and> fm_ptr s' = Some (2 * owed (last (lo # map unat cs)) 0 r)
            \<and> unat (fm_cycles_count s') = owed (last (lo # map unat cs)) 0 r * r
            \<and> fm_cycles_start s' = fm_cycles_start s"
proof (induction cs arbitrary: s lo)
  case Nil
  then show ?case by simp
next
  case (Cons c cs)
  let ?x = "unat c"
  let ?L = "last (?x # map unat cs)"
  have lo: "lo \<le> ?x" and srt: "sorted (?x # map unat cs)"
    using Cons.prems(6) by simp_all
  have bnd: "?x + r \<le> 2 ^ 32" and bnds: "\<forall>c \<in> set cs. unat c + r \<le> 2 ^ 32"
    using Cons.prems(7) by simp_all
  have L: "last (lo # map unat (c # cs)) = ?L" by simp
  have fit: "2 * owed ?L 0 r \<le> fm_buffer_len hc"
    using Cons.prems(8) by simp
  have xL: "owed ?x 0 r \<le> owed ?L 0 r"
    using r last_ge_head [OF srt] by (rule owed_mono)
  have lox: "owed lo 0 r \<le> owed ?x 0 r"
    using r lo by (rule owed_mono)
  have r0: "fm_cycles_ratio s \<noteq> 0"
    using Cons.prems(2) r by (auto simp: unat_gt_0 [symmetric])
  show ?case
  proof (cases "fm_cycles_count s < c")
    case False
    then have le: "?x \<le> owed lo 0 r * r"
      using Cons.prems(5) by (simp add: word_less_nat_alt)
    have same: "owed ?x 0 r = owed lo 0 r"
      using r lo le by (rule owed_same)
    have u: "fm_update E c s = Inr s" using False by (simp add: fm_update_def)
    have rq: "fm_request c s = 0" using False by (simp add: fm_request_def)
    from Cons.IH [of s ?x, OF Cons.prems(1,2,3) _ _ srt bnds fit]
      Cons.prems(4,5) same
    obtain s' where
      "fm_update_all E cs s = Inr (owed ?L 0 r - owed ?x 0 r, s')"
      "fm_ptr s' = Some (2 * owed ?L 0 r)"
      "unat (fm_cycles_count s') = owed ?L 0 r * r"
      "fm_cycles_start s' = fm_cycles_start s"
      by auto
    then show ?thesis by (simp add: u rq same L)
  next
    case True
    then have gt: "owed lo 0 r * r < ?x"
      using Cons.prems(5) by (simp add: word_less_nat_alt)
    have n: "owed ?x (unat (fm_cycles_count s)) (unat (fm_cycles_ratio s))
               = owed ?x 0 r - owed lo 0 r"
      using owed_rest [OF r lo gt] by (simp add: Cons.prems(2,5))
    have nowrap: "?x - unat (fm_cycles_count s) + unat (fm_cycles_ratio s) - 1 < 2 ^ 32"
      using bnd r by (simp add: Cons.prems(2))
    have fits: "2 * owed lo 0 r
        + 2 * owed ?x (unat (fm_cycles_count s)) (unat (fm_cycles_ratio s))
        \<le> length (fm_buffer s)"
      using n lox xL fit by (simp add: Cons.prems(3))
    from fm_update_advance [OF Cons.prems(1) r0 nowrap Cons.prems(4) Cons.prems(3) fits True,
        of E]
    obtain vals s1 where
      len: "length vals = 2 * (owed ?x 0 r - owed lo 0 r)" and
      sc: "sched s1 = sched s" and ok1: "backend_ok s1" and
      rq: "fm_request c s = owed ?x 0 r - owed lo 0 r" and
      u: "fm_update E c s =
            Inr (s1\<lparr>fm_buffer := buffer_write (fm_buffer s) (2 * owed lo 0 r) vals,
                   fm_ptr := Some (2 * owed lo 0 r + 2 * (owed ?x 0 r - owed lo 0 r)),
                   fm_cycles_count := fm_cycles_count s
                     + of_nat (owed ?x 0 r - owed lo 0 r) * fm_cycles_ratio s\<rparr>)"
      by (auto simp: n)
    define t where
      "t = s1\<lparr>fm_buffer := buffer_write (fm_buffer s) (2 * owed lo 0 r) vals,
                fm_ptr := Some (2 * owed lo 0 r + 2 * (owed ?x 0 r - owed lo 0 r)),
                fm_cycles_count := fm_cycles_count s
                  + of_nat (owed ?x 0 r - owed lo 0 r) * fm_cycles_ratio s\<rparr>"
    have ut: "fm_update E c s = Inr t" using u by (simp only: t_def)
    have b: "?x + unat (fm_cycles_ratio s) \<le> 2 ^ 32" using bnd by (simp add: Cons.prems(2))
    have a1: "backend_ok t" using ok1 by (simp add: t_def backend_ok_sched_update)
    have a2: "unat (fm_cycles_ratio t) = r"
      using sc Cons.prems(2) by (simp add: t_def sched_def)
    have a3: "length (fm_buffer t) = fm_buffer_len hc"
      using fits n len by (simp add: t_def length_buffer_write Cons.prems(3))
    have a4: "fm_ptr t = Some (2 * owed ?x 0 r)" using lox by (simp add: t_def)
    have "unat (fm_cycles_count t) = owed lo 0 r * r + (owed ?x 0 r - owed lo 0 r) * r"
      using fm_update_count_nowrap [OF ut True b] n by (simp add: Cons.prems(2,5))
    also have "\<dots> = owed ?x 0 r * r"
      using lox by (simp add: add_mult_distrib [symmetric])
    finally have a5: "unat (fm_cycles_count t) = owed ?x 0 r * r" .
    have a6: "fm_cycles_start t = fm_cycles_start s" using sc by (simp add: t_def sched_def)
    from Cons.IH [of t ?x, OF a1 a2 a3 a4 a5 srt bnds fit]
    obtain s' where s':
      "fm_update_all E cs t = Inr (owed ?L 0 r - owed ?x 0 r, s')"
      "fm_ptr s' = Some (2 * owed ?L 0 r)"
      "unat (fm_cycles_count s') = owed ?L 0 r * r"
      "fm_cycles_start s' = fm_cycles_start t"
      by auto
    have "fm_update_all E (c # cs) s
            = Inr (fm_request c s + (owed ?L 0 r - owed ?x 0 r), s')"
      by (simp add: ut s'(1))
    moreover have "fm_request c s + (owed ?L 0 r - owed ?x 0 r) = owed ?L 0 r - owed lo 0 r"
      using rq lox xL by linarith
    ultimately show ?thesis using s' a6 by (simp only: L) simp
  qed
qed

lemma sorted_le_last: "sorted xs \<Longrightarrow> x \<in> set xs \<Longrightarrow> x \<le> last xs"
  by (induction xs) auto

text \<open>
  Claim C2, as amended. From a reset state (\<open>fm_cycles_count = 0\<close>, the buffer pointer
  at the start), every sequence of targets \<open>c1 \<le> c2 \<le> ... \<le> cn\<close> handed to \<open>fm_update\<close>
  one after the other asks the chip for \<open>ceil(cn / fm_cycles_ratio)\<close> samples in
  total, leaves exactly that many pairs in the buffer and \<open>fm_cycles_count\<close> at that
  many times the ratio, provided \<open>cn + fm_cycles_ratio\<close> does not exceed \<open>2 ^ 32\<close>, the
  samples fit into \<open>fm_buffer\<close> and a chip is bound.
\<close>

theorem fm_update_all_total:
  assumes ok: "backend_ok s"
    and r0: "fm_cycles_ratio s \<noteq> 0"
    and len: "length (fm_buffer s) = fm_buffer_len hc"
    and ptr: "fm_ptr s = Some 0"
    and cnt: "fm_cycles_count s = 0"
    and ne: "cs \<noteq> []"
    and srt: "sorted cs"
    and nowrap: "unat (last cs) + unat (fm_cycles_ratio s) \<le> 2 ^ 32"
    and fits: "2 * owed (unat (last cs)) 0 (unat (fm_cycles_ratio s)) \<le> length (fm_buffer s)"
  shows "\<exists>s'. fm_update_all E cs s
                = Inr (owed (unat (last cs)) 0 (unat (fm_cycles_ratio s)), s')
           \<and> fm_ptr s' = Some (2 * owed (unat (last cs)) 0 (unat (fm_cycles_ratio s)))
           \<and> unat (fm_cycles_count s')
               = owed (unat (last cs)) 0 (unat (fm_cycles_ratio s)) * unat (fm_cycles_ratio s)"
proof -
  let ?r = "unat (fm_cycles_ratio s)"
  have r: "0 < ?r" using r0 by (simp add: unat_gt_0)
  have z: "owed 0 0 ?r = 0" using r by (simp add: owed_from_zero)
  have s1: "sorted (map unat cs)"
    using srt by (simp add: sorted_map word_le_nat_alt [symmetric])
  then have s2: "sorted (0 # map unat cs)" by simp
  have l: "last (0 # map unat cs) = unat (last cs)"
    using ne by (simp add: last_map)
  have b: "\<forall>c \<in> set cs. unat c + ?r \<le> 2 ^ 32"
  proof
    fix c assume "c \<in> set cs"
    then have "c \<le> last cs"
      using srt by (rule sorted_le_last [rotated])
    then have "unat c \<le> unat (last cs)" by (simp add: word_le_nat_alt)
    then show "unat c + ?r \<le> 2 ^ 32" using nowrap by linarith
  qed
  have p1: "fm_ptr s = Some (2 * owed 0 0 ?r)" using ptr z by simp
  have p2: "unat (fm_cycles_count s) = owed 0 0 ?r * ?r" using cnt z by simp
  have p3: "2 * owed (last (0 # map unat cs)) 0 ?r \<le> fm_buffer_len hc"
    using fits len by (simp only: l)
  from fm_update_all_from [OF r ok refl len p1 p2 s2 b p3, of E]
  obtain s' where "fm_update_all E cs s
      = Inr (owed (last (0 # map unat cs)) 0 ?r - owed 0 0 ?r, s')"
    "fm_ptr s' = Some (2 * owed (last (0 # map unat cs)) 0 ?r)"
    "unat (fm_cycles_count s') = owed (last (0 # map unat cs)) 0 ?r * ?r"
    by blast
  then have "fm_update_all E cs s = Inr (owed (unat (last cs)) 0 ?r, s')
      \<and> fm_ptr s' = Some (2 * owed (unat (last cs)) 0 ?r)
      \<and> unat (fm_cycles_count s') = owed (unat (last cs)) 0 ?r * ?r"
    by (simp only: l z diff_zero simp_thms)
  then show ?thesis by blast
qed

lemma md_start_backend_ok': "backend_ok md_start"
  by (simp add: backend_ok_def md_start_simps)

text \<open>
  The amended claim on the Mega Drive fixture: the targets 1000, 1500, 3000 ask for
  three samples in total.
\<close>

theorem fm_update_all_total_witness:
  "sorted [1000, 1500, 3000 :: uint32]
   \<and> owed (unat (3000 :: uint32)) 0 (unat (fm_cycles_ratio md_start)) = 3
   \<and> (\<exists>s'. fm_update_all (test_chip ramp) [1000, 1500, 3000] md_start = Inr (3, s')
          \<and> fm_ptr s' = Some 6 \<and> unat (fm_cycles_count s') = 3024)"
proof -
  have o: "owed 3000 0 1008 = 3" by (simp add: owed_eq)
  have "\<exists>s'. fm_update_all (test_chip ramp) [1000, 1500, 3000] md_start
                = Inr (owed (unat (last [1000, 1500, 3000 :: uint32])) 0
                         (unat (fm_cycles_ratio md_start)), s')
           \<and> fm_ptr s' = Some (2 * owed (unat (last [1000, 1500, 3000 :: uint32])) 0
                                   (unat (fm_cycles_ratio md_start)))
           \<and> unat (fm_cycles_count s')
               = owed (unat (last [1000, 1500, 3000 :: uint32])) 0
                   (unat (fm_cycles_ratio md_start)) * unat (fm_cycles_ratio md_start)"
    by (rule fm_update_all_total [OF md_start_backend_ok', where hc = False])
      (simp_all add: md_start_simps fm_buffer_len_def o)
  then show ?thesis by (simp add: md_start_simps o)
qed

text \<open>
  Claim C2 as it is stated fails where the 32-bit sum wraps around: the one target
  \<open>0xFFFFFFFF\<close> owes 4260881 samples at a ratio of 1008, and none is asked for.
\<close>

theorem fm_update_all_total_counterexample:
  "sorted [0xFFFFFFFF :: uint32]
   \<and> fm_cycles_count md_start = 0
   \<and> fm_ptr md_start = Some 0
   \<and> owed (unat (0xFFFFFFFF :: uint32)) 0 (unat (fm_cycles_ratio md_start)) = 4260881
   \<and> fm_update_all (test_chip ramp) [0xFFFFFFFF] md_start = Inr (0, md_start)"
proof -
  have s: "fm_samples 0xFFFFFFFF md_start = 0"
    by (simp add: fm_samples_def md_start_simps)
  have "fm_update (test_chip ramp) 0xFFFFFFFF md_start = Inr md_start"
    by (simp add: fm_update_def s call_YM_Update_def md_start_simps test_chip_def
        interleave_def buffer_write_def)
  then show ?thesis
    by (simp add: md_start_simps owed_eq fm_request_def s)
qed

subsection \<open>The selection of the chip\<close>

text \<open>
  Claim C9, as amended. \<open>sound_init\<close> always returns, and from \<open>system_hw\<close> and
  \<open>config.ym3438\<close> it selects exactly one chip with its ratio: the Nuked YM3438 with
  \<open>6 * 7 = 42\<close> on a Mega Drive when that core is compiled in and preferred, the MAME
  YM2612 with \<open>144 * 7 = 1008\<close> on a Mega Drive otherwise, the YM2413 with
  \<open>72 * 15 = 1080\<close> on the other consoles (where \<open>YM_Read\<close> is null). It binds the four
  entry points of that chip, initialises that chip and the PSG, and leaves the buffer,
  the carry state, the buffer pointer and the counters as they are: it resets
  nothing. The reset of the chip and of the PSG, and of the scheduler, is what
  \<open>sound_reset\<close> does, which after \<open>sound_init\<close> always succeeds.
\<close>

theorem sound_init_selects:
  "(system_hw c AND SYSTEM_PBC c = SYSTEM_MD c \<and> HAVE_YM3438_CORE c \<and> config_ym3438 c \<noteq> 0
      \<longrightarrow> fm_cycles_ratio (sound_init E c s) = 42
        \<and> YM_Reset (sound_init E c s) = Some Fn_YM3438_Reset
        \<and> YM_Update (sound_init E c s) = Some Fn_YM3438_Update
        \<and> YM_Write (sound_init E c s) = Some Fn_YM3438_Write
        \<and> YM_Read (sound_init E c s) = Some Fn_YM3438_Read
        \<and> ym3438 (sound_init E c s) = ym3438_zero E
        \<and> ym2612 (sound_init E c s) = ym2612 s
        \<and> ym2413 (sound_init E c s) = ym2413 s
        \<and> (\<exists>s'. sound_reset E c (sound_init E c s) = Inr s'
              \<and> ym3438 s' = OPN2_Reset E (ym3438_zero E)))
   \<and> (system_hw c AND SYSTEM_PBC c = SYSTEM_MD c
        \<and> \<not> (HAVE_YM3438_CORE c \<and> config_ym3438 c \<noteq> 0)
      \<longrightarrow> fm_cycles_ratio (sound_init E c s) = 1008
        \<and> YM_Reset (sound_init E c s) = Some Fn_YM2612ResetChip
        \<and> YM_Update (sound_init E c s) = Some Fn_YM2612Update
        \<and> YM_Write (sound_init E c s) = Some Fn_YM2612Write
        \<and> YM_Read (sound_init E c s) = Some Fn_YM2612Read
        \<and> ym3438 (sound_init E c s) = ym3438 s
        \<and> ym2612 (sound_init E c s)
            = YM2612Config E (config_dac_bits c) (YM2612Init E (ym2612 s))
        \<and> ym2413 (sound_init E c s) = ym2413 s
        \<and> (\<exists>s'. sound_reset E c (sound_init E c s) = Inr s'
              \<and> ym2612 s' = YM2612ResetChip E
                    (YM2612Config E (config_dac_bits c) (YM2612Init E (ym2612 s)))))
   \<and> (system_hw c AND SYSTEM_PBC c \<noteq> SYSTEM_MD c
      \<longrightarrow> fm_cycles_ratio (sound_init E c s) = 1080
        \<and> YM_Reset (sound_init E c s) = Some Fn_YM2413ResetChip
        \<and> YM_Update (sound_init E c s) = Some Fn_YM2413Update
        \<and> YM_Write (sound_init E c s) = Some Fn_YM2413Write
        \<and> YM_Read (sound_init E c s) = None
        \<and> ym3438 (sound_init E c s) = ym3438 s
        \<and> ym2612 (sound_init E c s) = ym2612 s
        \<and> ym2413 (sound_init E c s) = YM2413Init E (ym2413 s)
        \<and> (\<exists>s'. sound_reset E c (sound_init E c s) = Inr s'
              \<and> ym2413 s' = YM2413ResetChip E (YM2413Init E (ym2413 s))))
   \<and> psg (sound_init E c s)
       = psg_init E (if system_hw c = SYSTEM_SG c then PSG_DISCRETE else PSG_INTEGRATED)
           (psg s)
   \<and> fm_buffer (sound_init E c s) = fm_buffer s
   \<and> fm_last (sound_init E c s) = fm_last s
   \<and> fm_ptr (sound_init E c s) = fm_ptr s
   \<and> fm_cycles_start (sound_init E c s) = fm_cycles_start s
   \<and> fm_cycles_count (sound_init E c s) = fm_cycles_count s
   \<and> blips (sound_init E c s) = blips s
   \<and> (\<exists>s'. sound_reset E c (sound_init E c s) = Inr s'
         \<and> psg s' = psg_config E 0 (config_psg_preamp c) 0xff
               (psg_reset E (psg (sound_init E c s)))
         \<and> fm_last s' = (0, 0) \<and> fm_ptr s' = Some 0
         \<and> fm_cycles_start s' = 0 \<and> fm_cycles_count s' = 0)"
  by (simp add: sound_init_def sound_reset_def call_YM_Reset_def YM3438_Reset_def Let_def)

text \<open>
  The amended claim for a Mega Drive without the Nuked core: the ratio is 1008, the
  MAME functions are bound, and the buffer pointer is still null.
\<close>

theorem sound_init_selects_witness:
  "system_hw md_env AND SYSTEM_PBC md_env = SYSTEM_MD md_env
   \<and> \<not> (HAVE_YM3438_CORE md_env \<and> config_ym3438 md_env \<noteq> 0)
   \<and> fm_cycles_ratio (sound_init log_chip md_env (power_on False [] [] [] [])) = 1008
   \<and> YM_Update (sound_init log_chip md_env (power_on False [] [] [] []))
       = Some Fn_YM2612Update
   \<and> fm_ptr (sound_init log_chip md_env (power_on False [] [] [] [])) = None"
  using sound_init_selects [of md_env log_chip "power_on False [] [] [] []"]
  by (simp add: md_env_def power_on_def)

text \<open>
  Claim C9 as it is stated fails: with chips that log their calls, \<open>sound_init\<close> on
  the statics of a fresh program calls \<open>YM2612Init\<close>, \<open>YM2612Config\<close> and \<open>psg_init\<close>
  and no reset function; the resets are the calls \<open>sound_reset\<close> adds.
\<close>

theorem sound_init_selects_counterexample:
  "ym2612 (sound_init log_chip md_env (power_on False [] [] [] []))
     = [''YM2612Init'', ''YM2612Config'']
   \<and> psg (sound_init log_chip md_env (power_on False [] [] [] [])) = [''psg_init'']
   \<and> fm_ptr (sound_init log_chip md_env (power_on False [] [] [] [])) = None
   \<and> map_sum id ym2612 (sound_reset log_chip md_env
         (sound_init log_chip md_env (power_on False [] [] [] [])))
     = Inr [''YM2612Init'', ''YM2612Config'', ''YM2612ResetChip'']
   \<and> map_sum id psg (sound_reset log_chip md_env
         (sound_init log_chip md_env (power_on False [] [] [] [])))
     = Inr [''psg_init'', ''psg_reset'', ''psg_config'']"
  by (simp add: sound_init_def sound_reset_def call_YM_Reset_def md_env_def power_on_def
      log_chip_def)

section \<open>Saving and loading the state\<close>

subsection \<open>The bytes of the values that are saved\<close>

lemma word32_bytes_round_trip: "word32_of_bytes (bytes_of_word32 w @ rest) = w"
proof -
  have "ucast (ucast w :: uint8)
          OR push_bit 8 (ucast (ucast (drop_bit 8 w) :: uint8))
          OR push_bit 16 (ucast (ucast (drop_bit 16 w) :: uint8))
          OR push_bit 24 (ucast (ucast (drop_bit 24 w) :: uint8)) = w"
  proof (rule bit_word_eqI)
    fix n assume n: "n < LENGTH(32)"
    consider "n < 8" | "8 \<le> n" "n < 16" | "16 \<le> n" "n < 24" | "24 \<le> n"
      by linarith
    then show "bit (ucast (ucast w :: uint8)
          OR push_bit 8 (ucast (ucast (drop_bit 8 w) :: uint8))
          OR push_bit 16 (ucast (ucast (drop_bit 16 w) :: uint8))
          OR push_bit 24 (ucast (ucast (drop_bit 24 w) :: uint8)) :: 32 word) n = bit w n"
      using n by cases (auto simp: bit_simps)
  qed
  then show ?thesis by (simp add: bytes_of_word32_def)
qed

lemma length_bytes_of_word32: "length (bytes_of_word32 w) = 4"
  by (simp add: bytes_of_word32_def)

lemma pair_bytes_round_trip: "pair_of_bytes (bytes_of_pair p @ rest) = p"
  by (simp add: pair_of_bytes_def bytes_of_pair_def word32_bytes_round_trip
      length_bytes_of_word32)

lemma length_bytes_of_pair: "length (bytes_of_pair p) = 8"
  by (simp add: bytes_of_pair_def length_bytes_of_word32)

lemma length_bytes_of_accm: "length (bytes_of_accm rows) = 8 * length rows"
  by (induction rows) (simp_all add: bytes_of_accm_def length_bytes_of_pair)

lemma accm_row_round_trip:
  "j < length rows \<Longrightarrow> pair_of_bytes (drop (8 * j) (bytes_of_accm rows @ rest)) = rows ! j"
proof (induction rows arbitrary: j)
  case Nil
  then show ?case by simp
next
  case (Cons row rows)
  show ?case
  proof (cases j)
    case 0
    then show ?thesis by (simp add: bytes_of_accm_def pair_bytes_round_trip)
  next
    case (Suc i)
    with Cons.prems have i: "i < length rows" by simp
    have "drop (8 * j) (bytes_of_accm (row # rows) @ rest)
            = drop (8 * i) (bytes_of_accm rows @ rest)"
      by (simp add: Suc bytes_of_accm_def length_bytes_of_pair)
    then show ?thesis using Cons.IH [OF i] by (simp add: Suc)
  qed
qed

lemma accm_bytes_round_trip:
  assumes "length rows = 24"
  shows "accm_of_bytes (bytes_of_accm rows @ rest) = rows"
proof (rule nth_equalityI)
  show "length (accm_of_bytes (bytes_of_accm rows @ rest)) = length rows"
    using assms by (simp add: accm_of_bytes_def)
next
  fix j assume "j < length (accm_of_bytes (bytes_of_accm rows @ rest))"
  then have j: "j < 24" by (simp add: accm_of_bytes_def)
  then show "accm_of_bytes (bytes_of_accm rows @ rest) ! j = rows ! j"
    using assms accm_row_round_trip [of j rows rest]
    by (simp add: accm_of_bytes_def)
qed

subsection \<open>What is saved and what a load restores\<close>

lemma load_param_at:
  "length pre = p \<Longrightarrow> length bs = n \<Longrightarrow>
     load_param n (pre @ bs @ rest) p = Inr (bs, p + n)"
  by (auto simp: load_param_def)


lemma load_chip_persisted:
  assumes rt: "contexts_round_trip E c s t"
  shows "load_chip E c (persisted E c s) t =
     Inr (length (persisted E c s)
            - length (psg_context_save E (psg s)) - 4,
          case selected_update c of
            Fn_YM3438_Update \<Rightarrow>
              t\<lparr>ym3438 := ym3438 s, ym3438_accm := ym3438_accm s,
                ym3438_sample := ym3438_sample s, ym3438_cycles := ym3438_cycles s\<rparr>
          | Fn_YM2612Update \<Rightarrow> t\<lparr>ym2612 := ym2612 s\<rparr>
          | Fn_YM2413Update \<Rightarrow> t\<lparr>ym2413 := ym2413 s\<rparr>)"
proof (cases "selected_update c")
  case Fn_YM3438_Update
  then have b: "system_hw c AND SYSTEM_PBC c = SYSTEM_MD c" "HAVE_YM3438_CORE c"
    "config_ym3438 c \<noteq> 0"
    by (auto simp: selected_update_def split: if_splits)
  from rt Fn_YM3438_Update have
    l1: "length (ym3438_bytes E (ym3438 s)) = ym3438_size E" and
    o: "ym3438_of_bytes E (ym3438_bytes E (ym3438 s)) = ym3438 s" and
    a: "length (ym3438_accm s) = 24"
    by (simp_all add: contexts_round_trip_def)
  let ?ob = "ym3438_bytes E (ym3438 s)" and ?ab = "bytes_of_accm (ym3438_accm s)"
  let ?sb = "bytes_of_pair (ym3438_sample s)" and ?cb = "bytes_of_word32 (ym3438_cycles s)"
  let ?rest = "psg_context_save E (psg s) @ bytes_of_word32 (fm_cycles_start s)"
  have st: "persisted E c s = [config_ym3438 c] @ ?ob @ ?ab @ ?sb @ ?cb @ ?rest"
    by (simp add: persisted_def chip_context_def Fn_YM3438_Update b)
  have la: "length ?ab = 192" using a by (simp add: length_bytes_of_accm)
  define a1 where "a1 = 1 + ym3438_size E"
  define a2 where "a2 = a1 + 192"
  define a3 where "a3 = a2 + 8"
  define a4 where "a4 = a3 + 4"
  have p1: "load_param (Suc 0) (persisted E c s) 0 = Inr ([config_ym3438 c], Suc 0)"
    by (simp add: st load_param_def)
  have p2: "load_param (ym3438_size E) (persisted E c s) (Suc 0) = Inr (?ob, a1)"
    using load_param_at [of "[config_ym3438 c]" 1 ?ob "ym3438_size E"
        "?ab @ ?sb @ ?cb @ ?rest"]
    by (simp add: st l1 a1_def)
  have p3: "load_param 192 (persisted E c s) a1 = Inr (?ab, a2)"
    using load_param_at [of "[config_ym3438 c] @ ?ob" a1 ?ab 192 "?sb @ ?cb @ ?rest"]
    by (simp add: st l1 la a1_def a2_def)
  have p4: "load_param 8 (persisted E c s) a2 = Inr (?sb, a3)"
    using load_param_at [of "[config_ym3438 c] @ ?ob @ ?ab" a2 ?sb 8 "?cb @ ?rest"]
    by (simp add: st l1 la length_bytes_of_pair a1_def a2_def a3_def)
  have p5: "load_param 4 (persisted E c s) a3 = Inr (?cb, a4)"
    using load_param_at [of "[config_ym3438 c] @ ?ob @ ?ab @ ?sb" a3 ?cb 4 ?rest]
    by (simp add: st l1 la length_bytes_of_pair length_bytes_of_word32
        a1_def a2_def a3_def a4_def)
  have d: "accm_of_bytes ?ab = ym3438_accm s" "pair_of_bytes ?sb = ym3438_sample s"
    "word32_of_bytes ?cb = ym3438_cycles s"
    using accm_bytes_round_trip [OF a, of "[]"] pair_bytes_round_trip [of _ "[]"]
      word32_bytes_round_trip [of _ "[]"]
    by simp_all
  have n: "length (persisted E c s) - length (psg_context_save E (psg s)) - 4 = a4"
    by (simp add: st l1 la length_bytes_of_pair length_bytes_of_word32
        a1_def a2_def a3_def a4_def)
  show ?thesis
    unfolding load_chip_def n
    by (simp add: b p1 p2 p3 p4 p5 d o Fn_YM3438_Update)
next
  case Fn_YM2612Update
  from rt Fn_YM2612Update have
    l: "\<And>rest. YM2612LoadContext E (YM2612SaveContext E (ym2612 s) @ rest) (ym2612 t)
                 = (length (YM2612SaveContext E (ym2612 s)), ym2612 s)" and
    i: "YM2612Config E (config_dac_bits c) (ym2612 s) = ym2612 s"
    by (simp_all add: contexts_round_trip_def)
  from Fn_YM2612Update have md: "system_hw c AND SYSTEM_PBC c = SYSTEM_MD c"
    and nc: "\<not> (HAVE_YM3438_CORE c \<and> config_ym3438 c \<noteq> 0)"
    by (auto simp: selected_update_def split: if_splits)
  show ?thesis
  proof (cases "HAVE_YM3438_CORE c")
    case True
    with nc have z: "config_ym3438 c = 0" by simp
    show ?thesis
      by (simp add: load_chip_def persisted_def chip_context_def Fn_YM2612Update md True z
          load_param_def l i length_bytes_of_word32)
  next
    case False
    show ?thesis
      by (simp add: load_chip_def persisted_def chip_context_def Fn_YM2612Update md False
          l i length_bytes_of_word32)
  qed
next
  case Fn_YM2413Update
  from rt Fn_YM2413Update have
    l: "length (YM2413GetContext E (ym2413 s)) = YM2413GetContextSize E" and
    i: "YM2413SetContext E (YM2413GetContext E (ym2413 s)) (ym2413 t) = ym2413 s"
    by (simp_all add: contexts_round_trip_def)
  from Fn_YM2413Update have md: "system_hw c AND SYSTEM_PBC c \<noteq> SYSTEM_MD c"
    by (auto simp: selected_update_def split: if_splits)
  show ?thesis
    by (simp add: load_chip_def persisted_def chip_context_def Fn_YM2413Update md
        load_param_def l [symmetric] i length_bytes_of_word32)
qed

lemma context_load_persisted:
  assumes rt: "contexts_round_trip E c s t"
  shows "sound_context_load E c (persisted E c s) t
           = Inr (int (length (persisted E c s)), restored c s t)"
proof -
  let ?pb = "psg_context_save E (psg s)" and ?wb = "bytes_of_word32 (fm_cycles_start s)"
  define p where "p = length (persisted E c s) - length ?pb - 4"
  define q where "q = p + length ?pb"
  obtain pre where st: "persisted E c s = pre @ ?pb @ ?wb"
    by (simp add: persisted_def)
  then have lp: "length pre = p" by (simp add: length_bytes_of_word32 p_def)
  define s1 where "s1 = (case selected_update c of
            Fn_YM3438_Update \<Rightarrow>
              t\<lparr>ym3438 := ym3438 s, ym3438_accm := ym3438_accm s,
                ym3438_sample := ym3438_sample s, ym3438_cycles := ym3438_cycles s\<rparr>
          | Fn_YM2612Update \<Rightarrow> t\<lparr>ym2612 := ym2612 s\<rparr>
          | Fn_YM2413Update \<Rightarrow> t\<lparr>ym2413 := ym2413 s\<rparr>)"
  have lc: "load_chip E c (persisted E c s) t = Inr (p, s1)"
    unfolding s1_def p_def using rt by (rule load_chip_persisted)
  have ps: "psg s1 = psg t" by (simp add: s1_def split: update_fn.splits)
  have d: "drop p (persisted E c s) = ?pb @ ?wb"
    using lp by (simp add: st)
  from rt have pl: "psg_context_load E (?pb @ ?wb) (psg t) = (length ?pb, psg s)"
    by (simp add: contexts_round_trip_def)
  have w: "load_param 4 (persisted E c s) q = Inr (?wb, length (persisted E c s))"
    using load_param_at [of "pre @ ?pb" q ?wb 4 "[]"] lp
    by (simp add: st length_bytes_of_word32 q_def)
  have r: "word32_of_bytes ?wb = fm_cycles_start s"
    using word32_bytes_round_trip [of _ "[]"] by simp
  have "sound_context_load E c (persisted E c s) t
          = Inr (int (length (persisted E c s)),
                 s1\<lparr>psg := psg s, fm_cycles_start := fm_cycles_start s,
                   fm_cycles_count := fm_cycles_start s\<rparr>)"
    unfolding sound_context_load_def lc
    by (simp add: ps d pl q_def [symmetric] w r)
  then show ?thesis by (simp add: restored_def s1_def)
qed

subsection \<open>Two instances that differ in the contents of the buffer\<close>












subsection \<open>The signal of the resampler\<close>

lemma blip_sum_append: "blip_sum lv (a @ b) = blip_sum (blip_sum lv a) b"
  by (induction lv a rule: blip_sum.induct) simp_all

lemma blip_signal_append:
  "blip_signal lv (a @ b) = blip_signal lv a @ blip_signal (blip_sum lv a) b"
  by (induction lv a rule: blip_sum.induct) simp_all

lemma blip_level_append: "blip_level (a @ b) = blip_sum (blip_level a) b"
  by (simp add: blip_level_def blip_sum_append)



text \<open>
  The level of a resampler that was empty when the session began is the carry state:
  a frame adds to it the deltas from the old carry state to the new one.
\<close>

lemma flush_deltas_sum:
  "flush_deltas b p r c time prev = Inr (ds, tm, pv)
     \<Longrightarrow> blip_sum prev (map (if h then band_limited else linear) ds @ cs) = blip_sum pv cs"
proof (induction b p r c time prev arbitrary: ds tm pv rule: flush_deltas.induct)
  case (1 x y rest preamp ratio cycles time prev)
  show ?case
  proof (cases "time + ratio < cycles")
    case True
    with "1.prems" obtain ds' where
      f: "flush_deltas rest preamp ratio cycles (time + ratio)
         (cdiv (x * preamp) 100, cdiv (y * preamp) 100) = Inr (ds', tm, pv)"
      and d: "ds = (time, cdiv (x * preamp) 100 - fst prev, cdiv (y * preamp) 100 - snd prev)
                # ds'"
      by (auto simp: Let_def split: sum.splits)
    from "1.IH" [OF refl refl refl refl True f] show ?thesis
      by (cases h) (simp_all add: d band_limited_def linear_def)
  next
    case False
    with "1.prems" show ?thesis
      by (auto simp: Let_def band_limited_def linear_def)
  qed
qed simp_all

lemma sound_update_level:
  assumes "sound_update E c cycles s = Inr (n, s')"
    and "blip_level (blips s) = fm_last s"
  shows "blip_level (blips s') = fm_last s'"
proof -
  from assms(1) obtain s1 ds tm pv where
    u: "fm_update E cycles (s\<lparr>psg := psg_end_frame E cycles (psg s)\<rparr>) = Inr s1"
    and f: "flush_deltas (fm_buffer s1) (config_fm_preamp c) (fm_cycles_ratio s1) cycles
              (fm_cycles_start s1) (fm_last s1) = Inr (ds, tm, pv)"
    and s': "s' = s1\<lparr>fm_ptr := Some 0, fm_last := pv, fm_cycles_start := tm - cycles,
                     fm_cycles_count := tm - cycles,
                     blips := blips s1
                       @ map (if config_hq_fm c \<noteq> 0 then band_limited else linear) ds
                       @ [Blip_end_frame cycles]\<rparr>"
    by (auto simp: sound_update_frame_mix frame_mix_def Let_def split: sum.splits)
  from fm_update_sched [OF u] have f1: "fm_last s1 = fm_last s" "blips s1 = blips s"
    by simp_all
  from flush_deltas_sum [OF f, of "config_hq_fm c \<noteq> 0" "[Blip_end_frame cycles]"]
  show ?thesis
    by (simp add: s' blip_level_append f1 assms(2))
qed

subsection \<open>A frame in two instances\<close>







subsection \<open>The round trip\<close>


subsection \<open>The round trip on the Mega Drive\<close>



lemma bytes_of_word32_late: "bytes_of_word32 0xFFFFFF00 = [0, 255, 255, 255]"
  by (simp add: bytes_of_word32_def drop_bit_eq_div)

lemma md_selected: "selected_update md_env = Fn_YM2612Update"
  by (simp add: selected_update_def md_env_def)

lemma md_discriminator:
  "\<not> (system_hw md_env AND SYSTEM_PBC md_env = SYSTEM_MD md_env \<and> HAVE_YM3438_CORE md_env)"
  by (simp add: md_env_def)

lemma md_round_trip:
  "contexts_round_trip (test_chip f) md_env s t"
  by (simp add: contexts_round_trip_def md_selected test_chip_def)

lemma md_persisted:
  "persisted (test_chip f) md_env s = bytes_of_word32 (fm_cycles_start s)"
  using md_discriminator
  by (simp add: persisted_def chip_context_def md_selected test_chip_def)

lemma md_restored:
  "restored md_env s t = t\<lparr>ym2612 := ym2612 s, psg := psg s,
      fm_cycles_start := fm_cycles_start s, fm_cycles_count := fm_cycles_start s\<rparr>"
  by (simp add: restored_def md_selected)









subsection \<open>A session with a loaded frame start\<close>

lemma md_late_loaded:
  "sound_context_load (test_chip ramp) md_env [0, 255, 255, 255] md_start
     = Inr (4, md_start\<lparr>fm_cycles_start := 0xFFFFFF00, fm_cycles_count := 0xFFFFFF00\<rparr>)"
proof -
  let ?s = "md_start\<lparr>fm_cycles_start := 0xFFFFFF00\<rparr>"
  have r: "restored md_env ?s md_start
             = md_start\<lparr>fm_cycles_start := 0xFFFFFF00, fm_cycles_count := 0xFFFFFF00\<rparr>"
    by (simp add: md_restored md_start_def)
  have p: "persisted (test_chip ramp) md_env ?s = [0, 255, 255, 255]"
    by (simp add: md_persisted bytes_of_word32_late)
  show ?thesis
    using context_load_persisted [of "test_chip ramp" md_env ?s md_start, OF md_round_trip]
    by (simp add: p r)
qed

lemma md_late_update:
  "fm_update (test_chip ramp) 0xFFFFFFFF
       (md_start\<lparr>fm_cycles_start := 0xFFFFFF00, fm_cycles_count := 0xFFFFFF00\<rparr>)
     = Inr (md_start\<lparr>fm_buffer := [0, 0] @ replicate 2158 0, fm_ptr := Some 2,
              fm_cycles_start := 0xFFFFFF00, fm_cycles_count := 752\<rparr>)"
  by (simp add: fm_update_def fm_samples_def call_YM_Update_def test_chip_def
      interleave_1 buffer_write_def ramp_def md_start_def)

text \<open>
  Claim C6 as it is stated fails in a session that loads a frame start near the end
  of the range: after \<open>sound_context_load\<close> of the bytes \<open>00 ff ff ff\<close> both counters are
  \<open>0xFFFFFF00\<close>, and \<open>fm_update(0xFFFFFFFF)\<close> generates one sample and wraps
  \<open>fm_cycles_count\<close> around to 752. The difference of the two numbers is negative and
  leaves the remainder 752 on division by the ratio 1008; only the \<open>uint32\<close> difference
  is a multiple of the ratio, 1008 itself.
\<close>

theorem reachable_counter_difference_counterexample:
  "reachable (test_chip ramp) md_env
     (md_start\<lparr>fm_buffer := [0, 0] @ replicate 2158 0, fm_ptr := Some 2,
        fm_cycles_start := 0xFFFFFF00, fm_cycles_count := 752\<rparr>)
   \<and> (752 :: uint32) < 0xFFFFFF00
   \<and> int (unat (752 :: uint32)) - int (unat (0xFFFFFF00 :: uint32)) = - 4294966288
   \<and> (int (unat (752 :: uint32)) - int (unat (0xFFFFFF00 :: uint32)))
         mod int (unat (fm_cycles_ratio md_start)) = 752
   \<and> unat ((752 :: uint32) - 0xFFFFFF00) = 1 * unat (fm_cycles_ratio md_start)"
proof -
  have "length (fm_buffer (power_on False () () () ())) = fm_buffer_len (HAVE_YM3438_CORE md_env)"
    by (simp add: power_on_def md_env_def)
  then have "reachable (test_chip ramp) md_env md_start"
    using md_start_is_reset by (rule reachable.after_reset)
  then have "reachable (test_chip ramp) md_env
      (md_start\<lparr>fm_cycles_start := 0xFFFFFF00, fm_cycles_count := 0xFFFFFF00\<rparr>)"
    using md_late_loaded by (rule reachable.after_context_load)
  then have "reachable (test_chip ramp) md_env
     (md_start\<lparr>fm_buffer := [0, 0] @ replicate 2158 0, fm_ptr := Some 2,
        fm_cycles_start := 0xFFFFFF00, fm_cycles_count := 752\<rparr>)"
    using md_late_update by (rule reachable.after_fm_update)
  then show ?thesis by (simp add: md_start_simps)
qed

end
